theory Spec2Isabelle
  imports
    Main
    "HOL-Library.Signed_Division"
    "HOL-Library.Char_ord"
    "HOL-Library.List_Lexorder"
begin

section \<open>FrogUI menu browser (frogos.c): data model\<close>

text \<open>
  The browser keeps its state in file-level statics. The model collects the ones that the
  navigation logic reads or writes in one record and passes it through every function.

  \<^item> C \<open>int\<close> is modelled as \<open>int\<close>. All counters are bounded by the number of rows
    of one listing, far below \<open>2^31\<close>, so no arithmetic of the modelled code overflows.
    C's \<open>%\<close> truncates towards zero; it is \<open>smod\<close>, and a zero divisor is an error value.
  \<^item> A C string is modelled by its contents (a \<open>string\<close> without NUL).
    \<open>snprintf (dst, n + 1, ...)\<close> into a buffer of \<open>n + 1\<close> bytes is \<open>take n\<close>, and so
    is \<open>strncpy (dst, src, n)\<close>, which leaves the last byte of the buffer alone: the model
    takes that byte to be NUL.
  \<^item> \<open>entries\<close> is a heap array of \<open>entries_capacity\<close> cells, of which the first
    \<open>entry_count\<close> are the listing. The model keeps the whole array as a list; the list's
    length is the allocated capacity (\<open>entries\<close> and \<open>entries_capacity\<close> are only ever
    assigned together, lines 317-318), a \<open>NULL\<close> array is the empty list, and a write at
    an index outside the allocation is the error \<open>OutOfBounds\<close>.
  \<^item> \<open>empty_dirs\<close> with \<open>empty_dirs_count\<close> is the list of its first
    \<open>empty_dirs_count\<close> names.
  \<^item> Drawing, sound, thumbnails and the text-scroll counters are not modelled.
\<close>

record MenuEntry =
  path :: string
  name :: string
  is_dir :: bool

record state =
  entries :: "MenuEntry list"
  entry_count :: int
  selected_index :: int
  scroll_offset :: int
  boundary_delay_timer :: int
  at_boundary :: int
  current_path :: string
  az_picker_active :: bool
  az_selected_index :: int
  empty_dirs :: "string list"
  empty_dirs_loaded :: bool
  hide_empty_folders :: bool
  game_queued :: bool

datatype error = OutOfBounds | DivByZero | Diverges

definition entries_capacity :: "state \<Rightarrow> int" where
  "entries_capacity s = int (length (entries s))"

definition ROMS_PATH :: string where
  "ROMS_PATH = ''/mnt/sda1/ROMS''"

definition INITIAL_ENTRIES_CAPACITY :: int where
  "INITIAL_ENTRIES_CAPACITY = 64"

text \<open>The values of the statics at program start (lines 156-158, 282-297, 339-342).\<close>

definition initial_state :: state where
  "initial_state =
     \<lparr>entries = [], entry_count = 0, selected_index = 0, scroll_offset = 0,
      boundary_delay_timer = 0, at_boundary = 0, current_path = [],
      az_picker_active = False, az_selected_index = 0,
      empty_dirs = [], empty_dirs_loaded = False, hide_empty_folders = True,
      game_queued = False\<rparr>"

text \<open>\<open>reset_navigation_state\<close>, lines 322-327.\<close>

definition reset_navigation_state :: "state \<Rightarrow> state" where
  "reset_navigation_state s =
     s\<lparr>selected_index := 0, scroll_offset := 0, boundary_delay_timer := 0, at_boundary := 0\<rparr>"

section \<open>Selection and viewport: the stepping handlers of \<open>handle_input\<close>\<close>

text \<open>
  \<open>VISIBLE_ENTRIES\<close> is a macro of render.h, which is not part of the sources at hand; the
  functions that use it take its value as the parameter \<open>V\<close>.

  Lines 1834-1845: UP released.
\<close>

definition step_up :: "state \<Rightarrow> state" where
  "step_up s =
     (let s1 = (if selected_index s > 0
                then s\<lparr>selected_index := selected_index s - 1\<rparr>
                else s\<lparr>selected_index := entry_count s - 1\<rparr>)
      in if selected_index s1 < scroll_offset s1
         then s1\<lparr>scroll_offset := selected_index s1\<rparr> else s1)"

text \<open>Lines 1848-1859: DOWN released.\<close>

definition step_down :: "int \<Rightarrow> state \<Rightarrow> state" where
  "step_down V s =
     (let s1 = (if selected_index s < entry_count s - 1
                then s\<lparr>selected_index := selected_index s + 1\<rparr>
                else s\<lparr>selected_index := 0\<rparr>)
      in if selected_index s1 \<ge> scroll_offset s1 + V
         then s1\<lparr>scroll_offset := selected_index s1 - V + 1\<rparr> else s1)"

text \<open>Lines 1862-1873: L released (seven rows up).\<close>

definition step_l :: "state \<Rightarrow> state" where
  "step_l s =
     (let s1 = (if selected_index s \<ge> 7
                then s\<lparr>selected_index := selected_index s - 7\<rparr>
                else s\<lparr>selected_index := entry_count s - (7 - selected_index s)\<rparr>)
      in if selected_index s1 < scroll_offset s1
         then s1\<lparr>scroll_offset := selected_index s1\<rparr> else s1)"

text \<open>
  Lines 1876-1887: R released (seven rows down). The wrap-around branch computes
  \<open>(selected_index + 7) % entry_count\<close>; with \<open>entry_count = 0\<close> that is a division by
  zero, which C leaves undefined.
\<close>

definition c_mod :: "int \<Rightarrow> int \<Rightarrow> error + int" where
  "c_mod a b = (if b = 0 then Inl DivByZero else Inr (a smod b))"

definition step_r :: "int \<Rightarrow> state \<Rightarrow> error + state" where
  "step_r V s =
     (case (if selected_index s < entry_count s - 7
            then Inr (s\<lparr>selected_index := selected_index s + 7\<rparr>)
            else (case c_mod (selected_index s + 7) (entry_count s) of
                    Inl e \<Rightarrow> Inl e
                  | Inr k \<Rightarrow> Inr (s\<lparr>selected_index := k\<rparr>))) of
        Inl e \<Rightarrow> Inl e
      | Inr s1 \<Rightarrow>
          Inr (if selected_index s1 \<ge> scroll_offset s1 + V
               then s1\<lparr>scroll_offset := selected_index s1 - V + 1\<rparr> else s1))"

text \<open>
  The four handlers are consecutive \<open>if\<close> statements (not \<open>else if\<close>), so one frame that
  releases several buttons runs them in this order. Each flag says that the button's
  release edge (\<open>prev_input[i] && !button\<close>) was seen.
\<close>

definition handle_stepping :: "int \<Rightarrow> bool \<Rightarrow> bool \<Rightarrow> bool \<Rightarrow> bool \<Rightarrow> state \<Rightarrow> error + state" where
  "handle_stepping V up_rel down_rel l_rel r_rel s =
     (let s1 = (if up_rel then step_up s else s);
          s2 = (if down_rel then step_down V s1 else s1);
          s3 = (if l_rel then step_l s2 else s2)
      in if r_rel then step_r V s3 else Inr s3)"



text \<open>The viewport invariant of the specification.\<close>

definition viewport_inv :: "int \<Rightarrow> state \<Rightarrow> bool" where
  "viewport_inv V s \<longleftrightarrow>
     scroll_offset s \<le> selected_index s \<and> selected_index s \<le> scroll_offset s + V - 1"

text \<open>\<open>show_hotkeys_screen\<close>, lines 821-830.\<close>

definition show_hotkeys_screen :: "state \<Rightarrow> state" where
  "show_hotkeys_screen s =
     reset_navigation_state (s\<lparr>current_path := take 511 ''HOTKEYS'', entry_count := 0\<rparr>)"

text \<open>A listing of \<open>n\<close> file rows with a given selection and scroll offset, for examples.\<close>

definition listing_state :: "nat \<Rightarrow> int \<Rightarrow> int \<Rightarrow> state" where
  "listing_state n sel scr =
     initial_state\<lparr>entries := replicate n \<lparr>path = ''/mnt/sda1/ROMS/gb/a.gb'', name = ''a.gb'', is_dir = False\<rparr>,
                   entry_count := int n, selected_index := sel, scroll_offset := scr,
                   current_path := ''/mnt/sda1/ROMS/gb''\<rparr>"

section \<open>The entry array\<close>

text \<open>
  What the program sees of its surroundings: the directory tree (\<open>opendir\<close> and the
  sequence \<open>readdir\<close> then yields, \<open>None\<close> when the directory cannot be opened),
  \<open>stat\<close> (whether the path is a directory, \<open>None\<close> when \<open>stat\<close> fails), whether
  \<open>realloc\<close> to a given number of cells succeeds, the unspecified contents of a freshly
  allocated cell, and the contents of the empty-folder cache file (\<open>None\<close> when it cannot
  be opened for reading).
\<close>

record dirent =
  d_name :: string
  d_type :: nat

definition DT_UNKNOWN :: nat where
  "DT_UNKNOWN = 0"

definition DT_DIR :: nat where
  "DT_DIR = 4"

definition DT_REG :: nat where
  "DT_REG = 8"

record env =
  opendir :: "string \<Rightarrow> dirent list option"
  stat_is_dir :: "string \<Rightarrow> bool option"
  realloc_ok :: "int \<Rightarrow> bool"
  fresh_cell :: MenuEntry
  cache_file :: "string option"

text \<open>
  \<open>ensure_entries_capacity\<close>, lines 300-319. The doubling loop is the \<open>while\<close> of lines
  307-309; it does not end when it starts from a capacity that is not positive.
\<close>

partial_function (option) double_capacity :: "int \<Rightarrow> int \<Rightarrow> int option" where
  "double_capacity new_capacity required_capacity =
     (if new_capacity < required_capacity
      then double_capacity (new_capacity * 2) required_capacity
      else Some new_capacity)"

declare double_capacity.simps [code]

definition ensure_entries_capacity :: "env \<Rightarrow> int \<Rightarrow> state \<Rightarrow> error + state" where
  "ensure_entries_capacity e required_capacity s =
     (if entries_capacity s \<ge> required_capacity then Inr s
      else
        (case double_capacity
                (if entries_capacity s = 0 then INITIAL_ENTRIES_CAPACITY else entries_capacity s)
                required_capacity of
           None \<Rightarrow> Inl Diverges
         | Some new_capacity \<Rightarrow>
             if \<not> realloc_ok e new_capacity then Inr s
             else Inr (s\<lparr>entries := entries s
                          @ replicate (nat new_capacity - length (entries s)) (fresh_cell e)\<rparr>)))"

text \<open>
  \<open>entries[i] = v\<close> (the three fields of a cell are always written together) and
  \<open>entries[i]\<close> as a value.
\<close>

definition set_entry :: "int \<Rightarrow> MenuEntry \<Rightarrow> state \<Rightarrow> error + state" where
  "set_entry i v s =
     (if 0 \<le> i \<and> i < entries_capacity s
      then Inr (s\<lparr>entries := (entries s)[nat i := v]\<rparr>)
      else Inl OutOfBounds)"

definition get_entry :: "int \<Rightarrow> state \<Rightarrow> error + MenuEntry" where
  "get_entry i s =
     (if 0 \<le> i \<and> i < entries_capacity s then Inr (entries s ! nat i) else Inl OutOfBounds)"

text \<open>
  The recurring group \<open>strncpy (entries[entry_count].name, n, 255);
  strncpy (entries[entry_count].path, p, 511); entries[entry_count].is_dir = d;
  entry_count++\<close>.
\<close>

definition mk_entry :: "string \<Rightarrow> string \<Rightarrow> bool \<Rightarrow> MenuEntry" where
  "mk_entry n p d = \<lparr>path = take 511 p, name = take 255 n, is_dir = d\<rparr>"

definition append_entry :: "MenuEntry \<Rightarrow> state \<Rightarrow> error + state" where
  "append_entry v s =
     (case set_entry (entry_count s) v s of
        Inl x \<Rightarrow> Inl x
      | Inr s1 \<Rightarrow> Inr (s1\<lparr>entry_count := entry_count s1 + 1\<rparr>))"

text \<open>The rows of the current listing: the first \<open>entry_count\<close> cells.\<close>

definition listing :: "state \<Rightarrow> MenuEntry list" where
  "listing s = take (nat (entry_count s)) (entries s)"

section \<open>The empty-folder cache\<close>

definition c_tolower :: "char \<Rightarrow> char" where
  "c_tolower c = (if CHR ''A'' \<le> c \<and> c \<le> CHR ''Z'' then char_of (of_char c + (32::nat)) else c)"

definition strcasecmp_eq :: "string \<Rightarrow> string \<Rightarrow> bool" where
  "strcasecmp_eq a b \<longleftrightarrow> map c_tolower a = map c_tolower b"

text \<open>\<open>d_name[0] == '.'\<close>.\<close>

definition starts_with_dot :: "string \<Rightarrow> bool" where
  "starts_with_dot n = (case n of [] \<Rightarrow> False | c # _ \<Rightarrow> c = CHR ''.'')"

text \<open>The three folder names that every scan skips (lines 214-216 and 874).\<close>

definition reserved_name :: "string \<Rightarrow> bool" where
  "reserved_name n \<longleftrightarrow>
     strcasecmp_eq n ''frogui'' \<or> strcasecmp_eq n ''saves'' \<or> strcasecmp_eq n ''save''"

definition MAX_EMPTY_DIRS :: nat where
  "MAX_EMPTY_DIRS = 256"

text \<open>\<open>is_in_empty_cache\<close>, lines 194-201.\<close>

definition is_in_empty_cache :: "state \<Rightarrow> string \<Rightarrow> bool" where
  "is_in_empty_cache s folder_name = list_ex (\<lambda>d. strcasecmp_eq d folder_name) (empty_dirs s)"

text \<open>
  \<open>rebuild_empty_dirs_cache\<close>, lines 204-260: the loop over the root directory, with the
  names collected so far. A folder is recorded when it can be opened and every name in it
  starts with a dot. The cache file that is written at the end is output only: the file is
  read at most once in the life of the process, before the first rebuild.
\<close>

fun rebuild_loop :: "env \<Rightarrow> dirent list \<Rightarrow> string list \<Rightarrow> string list" where
  "rebuild_loop e [] acc = acc"
| "rebuild_loop e (ent # rest) acc =
     (if \<not> length acc < MAX_EMPTY_DIRS then acc
      else if starts_with_dot (d_name ent) then rebuild_loop e rest acc
      else if reserved_name (d_name ent) then rebuild_loop e rest acc
      else if d_type ent \<noteq> DT_DIR then rebuild_loop e rest acc
      else
        (let entry_name = take 63 (d_name ent);
             full_path = take 511 (ROMS_PATH @ ''/'' @ entry_name)
         in case opendir e full_path of
              None \<Rightarrow> rebuild_loop e rest acc
            | Some subs \<Rightarrow>
                if list_ex (\<lambda>sub. \<not> starts_with_dot (d_name sub)) subs
                then rebuild_loop e rest acc
                else rebuild_loop e rest (acc @ [take 63 entry_name])))"

definition rebuild_empty_dirs_cache :: "env \<Rightarrow> state \<Rightarrow> state" where
  "rebuild_empty_dirs_cache e s =
     (case opendir e ROMS_PATH of
        None \<Rightarrow> s\<lparr>empty_dirs := []\<rparr>
      | Some ents \<Rightarrow> s\<lparr>empty_dirs := rebuild_loop e ents []\<rparr>)"

text \<open>
  \<open>load_empty_dirs_cache\<close>, lines 165-191. \<open>fgets_lines\<close> cuts the file into the pieces
  that successive calls \<open>fgets (line, 64, fp)\<close> return: up to 63 characters, ending after
  a newline; \<open>cur\<close> holds the characters of the piece being read.
\<close>

fun fgets_lines :: "string \<Rightarrow> string \<Rightarrow> string list" where
  "fgets_lines cur [] = (if cur = [] then [] else [cur])"
| "fgets_lines cur (c # cs) =
     (if c = CHR 0x0A \<or> length cur + 1 = 63
      then (cur @ [c]) # fgets_lines [] cs
      else fgets_lines (cur @ [c]) cs)"

definition strip_newline :: "string \<Rightarrow> string" where
  "strip_newline line = (if line \<noteq> [] \<and> last line = CHR 0x0A then butlast line else line)"

fun read_cache_lines :: "string list \<Rightarrow> string list \<Rightarrow> string list" where
  "read_cache_lines [] acc = acc"
| "read_cache_lines (line # rest) acc =
     (if \<not> length acc < MAX_EMPTY_DIRS then acc
      else
        (let l = strip_newline line
         in read_cache_lines rest (if l \<noteq> [] then acc @ [take 63 l] else acc)))"

definition load_empty_dirs_cache :: "env \<Rightarrow> state \<Rightarrow> state" where
  "load_empty_dirs_cache e s =
     (if empty_dirs_loaded s then s
      else
        (let s1 = s\<lparr>empty_dirs_loaded := True, empty_dirs := []\<rparr>
         in case cache_file e of
              None \<Rightarrow> rebuild_empty_dirs_cache e s1
            | Some content \<Rightarrow> s1\<lparr>empty_dirs := read_cache_lines (fgets_lines [] content) []\<rparr>))"

section \<open>The directory scanner\<close>

text \<open>\<open>is_directory_fast\<close>, lines 609-621.\<close>

definition is_directory_fast :: "env \<Rightarrow> string \<Rightarrow> nat \<Rightarrow> bool" where
  "is_directory_fast e p t =
     (if t \<noteq> DT_UNKNOWN then t = DT_DIR
      else (case stat_is_dir e p of Some b \<Rightarrow> b | None \<Rightarrow> False))"

text \<open>
  The \<open>readdir\<close> loop of \<open>scan_directory\<close>, lines 870-923, over the names that
  \<open>readdir\<close> still has to deliver. The two branches of lines 910-922 differ only in the
  value stored in \<open>is_dir\<close>.
\<close>

fun scan_loop :: "env \<Rightarrow> string \<Rightarrow> bool \<Rightarrow> dirent list \<Rightarrow> state \<Rightarrow> error + state" where
  "scan_loop e p is_root [] s = Inr s"
| "scan_loop e p is_root (ent # rest) s =
     (if starts_with_dot (d_name ent) then scan_loop e p is_root rest s
      else if reserved_name (d_name ent) then scan_loop e p is_root rest s
      else
        (let entry_name = take 255 (d_name ent);
             full_path = take 511 (p @ ''/'' @ entry_name);
             isdir = is_directory_fast e full_path (d_type ent)
         in if is_root \<and> \<not> isdir then scan_loop e p is_root rest s
            else
              (let s1 = (if is_root \<and> isdir \<and> hide_empty_folders s
                         then load_empty_dirs_cache e s else s)
               in if is_root \<and> isdir \<and> hide_empty_folders s \<and> is_in_empty_cache s1 entry_name
                  then scan_loop e p is_root rest s1
                  else
                    (case ensure_entries_capacity e (entry_count s1 + 1) s1 of
                       Inl x \<Rightarrow> Inl x
                     | Inr s2 \<Rightarrow>
                         (case append_entry (mk_entry entry_name full_path isdir) s2 of
                            Inl x \<Rightarrow> Inl x
                          | Inr s3 \<Rightarrow> scan_loop e p is_root rest s3)))))"

text \<open>
  \<open>qsort (entries, entry_count, sizeof (MenuEntry), compare_entries)\<close>, line 929, with
  \<open>compare_entries\<close> (lines 624-628) the \<open>strcmp\<close> of the names: bytewise lexicographic
  order, which is the order of \<open>string\<close> here. \<open>qsort\<close> promises a sorted permutation and
  no more; the rows of one directory have different names, and then there is only one.
\<close>

definition qsort_entries :: "state \<Rightarrow> state" where
  "qsort_entries s =
     s\<lparr>entries := sort_key name (take (nat (entry_count s)) (entries s))
                   @ drop (nat (entry_count s)) (entries s)\<rparr>"

text \<open>
  The shifting loops of lines 937-939, 948-950 and 959-961:
  \<open>for (i = entry_count; i > lo; i--) entries[i] = entries[i - 1]\<close>.
\<close>

function shift_entries :: "int \<Rightarrow> int \<Rightarrow> state \<Rightarrow> error + state" where
  "shift_entries lo i s =
     (if i > lo
      then (case get_entry (i - 1) s of
              Inl x \<Rightarrow> Inl x
            | Inr v \<Rightarrow>
                (case set_entry i v s of
                   Inl x \<Rightarrow> Inl x
                 | Inr s1 \<Rightarrow> shift_entries lo (i - 1) s1))
      else Inr s)"
  by pat_completeness auto
termination
  by (relation "measure (\<lambda>(lo, i, s). nat (i - lo))") auto

declare shift_entries.simps [simp del]

definition recent_row :: MenuEntry where
  "recent_row = mk_entry ''Recent games'' ''RECENT_GAMES'' True"

definition favorites_row :: MenuEntry where
  "favorites_row = mk_entry ''Favorites'' ''FAVORITES'' True"

definition random_row :: MenuEntry where
  "random_row = mk_entry ''Random game'' ''RANDOM_GAME'' True"

definition tools_row :: MenuEntry where
  "tools_row = mk_entry ''Tools'' ''TOOLS'' True"

text \<open>Lines 932-974: the four rows added to the root listing.\<close>

definition insert_row :: "int \<Rightarrow> MenuEntry \<Rightarrow> state \<Rightarrow> error + state" where
  "insert_row k v s =
     (case shift_entries k (entry_count s) s of
        Inl x \<Rightarrow> Inl x
      | Inr s1 \<Rightarrow>
          (case set_entry k v s1 of
             Inl x \<Rightarrow> Inl x
           | Inr s2 \<Rightarrow> Inr (s2\<lparr>entry_count := entry_count s2 + 1\<rparr>)))"

definition add_root_rows :: "env \<Rightarrow> state \<Rightarrow> error + state" where
  "add_root_rows e s =
     (case ensure_entries_capacity e (entry_count s + 4) s of
        Inl x \<Rightarrow> Inl x
      | Inr s1 \<Rightarrow>
          (case insert_row 0 recent_row s1 of
             Inl x \<Rightarrow> Inl x
           | Inr s2 \<Rightarrow>
               (case insert_row 1 favorites_row s2 of
                  Inl x \<Rightarrow> Inl x
                | Inr s3 \<Rightarrow>
                    (case insert_row 2 random_row s3 of
                       Inl x \<Rightarrow> Inl x
                     | Inr s4 \<Rightarrow> append_entry tools_row s4))))"

text \<open>
  \<open>scan_directory\<close>, lines 845-980. In a folder other than the root the parent marker is
  row 0 before the loop and takes part in the sort (names that begin with a character below
  the dot, such as a bracket, sort before it). The thumbnail flags set at the end are not
  part of the model.
\<close>

definition scan_directory :: "env \<Rightarrow> string \<Rightarrow> state \<Rightarrow> error + state" where
  "scan_directory e p s =
     (let s0 = reset_navigation_state (s\<lparr>entry_count := 0\<rparr>);
          is_root = (p = ROMS_PATH)
      in case (if \<not> is_root
               then (case ensure_entries_capacity e (entry_count s0 + 1) s0 of
                       Inl x \<Rightarrow> Inl x
                     | Inr s' \<Rightarrow> append_entry (mk_entry ''..'' p True) s')
               else Inr s0) of
           Inl x \<Rightarrow> Inl x
         | Inr s1 \<Rightarrow>
             (case opendir e p of
                None \<Rightarrow> Inr s1
              | Some ents \<Rightarrow>
                  (case scan_loop e p is_root ents s1 of
                     Inl x \<Rightarrow> Inl x
                   | Inr s2 \<Rightarrow>
                       (let s3 = qsort_entries s2
                        in if is_root then add_root_rows e s3 else Inr s3))))"

section \<open>What a scan yields\<close>

text \<open>
  The listing that \<open>scan_directory\<close> is meant to produce, written down directly instead of
  by array writes. \<open>cache_view\<close> is the empty-folder cache as a scan sees it: the loaded
  one, or the one it loads on first use. \<open>scanned_rows\<close> are the rows that the
  \<open>readdir\<close> loop appends, in directory order.
\<close>

definition cache_view :: "env \<Rightarrow> state \<Rightarrow> string list" where
  "cache_view e s = empty_dirs (load_empty_dirs_cache e s)"

fun scanned_rows :: "env \<Rightarrow> string \<Rightarrow> bool \<Rightarrow> bool \<Rightarrow> string list \<Rightarrow> dirent list \<Rightarrow> MenuEntry list" where
  "scanned_rows e p is_root hide cache [] = []"
| "scanned_rows e p is_root hide cache (ent # rest) =
     (if starts_with_dot (d_name ent) \<or> reserved_name (d_name ent)
      then scanned_rows e p is_root hide cache rest
      else
        (let entry_name = take 255 (d_name ent);
             full_path = take 511 (p @ ''/'' @ entry_name);
             isdir = is_directory_fast e full_path (d_type ent)
         in if is_root \<and> \<not> isdir then scanned_rows e p is_root hide cache rest
            else if is_root \<and> isdir \<and> hide \<and> list_ex (\<lambda>d. strcasecmp_eq d entry_name) cache
            then scanned_rows e p is_root hide cache rest
            else mk_entry entry_name full_path isdir # scanned_rows e p is_root hide cache rest))"

text \<open>
  The root listing is the three fixed rows, the sorted folders and the Tools row; any other
  listing is the parent marker and the scanned rows, sorted together; a directory that
  cannot be opened leaves only what was there before the loop.
\<close>

definition parent_row :: "string \<Rightarrow> MenuEntry" where
  "parent_row p = mk_entry ''..'' p True"

definition scan_rows :: "env \<Rightarrow> string \<Rightarrow> bool \<Rightarrow> string list \<Rightarrow> MenuEntry list" where
  "scan_rows e p hide cache =
     (if p = ROMS_PATH
      then (case opendir e p of
              None \<Rightarrow> []
            | Some ents \<Rightarrow>
                recent_row # favorites_row # random_row
                  # sort_key name (scanned_rows e p True hide cache ents) @ [tools_row])
      else (case opendir e p of
              None \<Rightarrow> [parent_row p]
            | Some ents \<Rightarrow> sort_key name (parent_row p # scanned_rows e p False hide cache ents)))"

definition scan_start :: "state \<Rightarrow> state" where
  "scan_start s = reset_navigation_state (s\<lparr>entry_count := 0\<rparr>)"

text \<open>
  The two ways a run of the \<open>readdir\<close> loop, and of the whole scan, can end: with a write
  outside the array after a failed \<open>realloc\<close>, or with the rows in place. \<open>b\<close> tells
  whether the run loaded the empty-folder cache.
\<close>

definition scan_ok :: "env \<Rightarrow> state \<Rightarrow> MenuEntry list \<Rightarrow> error + state \<Rightarrow> bool" where
  "scan_ok e s rows res \<longleftrightarrow>
     (res = Inl OutOfBounds \<and> \<not> (\<forall>c. realloc_ok e c)
        \<and> entries_capacity s < entry_count s + int (length rows))
     \<or> (\<exists>b xs. res = Inr ((if b then load_empty_dirs_cache e s else s)
                              \<lparr>entries := xs, entry_count := entry_count s + int (length rows)\<rparr>)
           \<and> take (nat (entry_count s + int (length rows))) xs = listing s @ rows
           \<and> entry_count s + int (length rows) \<le> int (length xs)
           \<and> length (entries s) \<le> length xs
           \<and> ((\<forall>c. \<not> realloc_ok e c) \<longrightarrow> length xs = length (entries s)))"

definition scan_done :: "env \<Rightarrow> state \<Rightarrow> MenuEntry list \<Rightarrow> error + state \<Rightarrow> bool" where
  "scan_done e s rows res \<longleftrightarrow>
     (res = Inl OutOfBounds \<and> \<not> (\<forall>c. realloc_ok e c) \<and> length (entries s) < length rows)
     \<or> (\<exists>b xs. res = Inr ((if b then load_empty_dirs_cache e (scan_start s) else scan_start s)
                              \<lparr>entries := xs, entry_count := int (length rows)\<rparr>)
           \<and> take (length rows) xs = rows
           \<and> length rows \<le> length xs
           \<and> length (entries s) \<le> length xs
           \<and> ((\<forall>c. \<not> realloc_ok e c) \<longrightarrow> length xs = length (entries s)))"


section \<open>A small card, for examples\<close>

text \<open>
  A ROMS directory with three console folders (one of them empty, one whose type
  \<open>readdir\<close> does not report), a file and a save folder; the same card when no directory
  can be opened; and the same card when every \<open>realloc\<close> fails.
\<close>

definition example_fs :: "string \<Rightarrow> dirent list option" where
  "example_fs p =
     (if p = ''/mnt/sda1/ROMS'' then
        Some [\<lparr>d_name = ''.'', d_type = DT_DIR\<rparr>, \<lparr>d_name = ''..'', d_type = DT_DIR\<rparr>,
              \<lparr>d_name = ''snes'', d_type = DT_DIR\<rparr>, \<lparr>d_name = ''gb'', d_type = DT_DIR\<rparr>,
              \<lparr>d_name = ''saves'', d_type = DT_DIR\<rparr>, \<lparr>d_name = ''readme.txt'', d_type = DT_REG\<rparr>,
              \<lparr>d_name = ''nes'', d_type = DT_UNKNOWN\<rparr>]
      else if p = ''/mnt/sda1/ROMS/gb'' then
        Some [\<lparr>d_name = ''.'', d_type = DT_DIR\<rparr>, \<lparr>d_name = ''..'', d_type = DT_DIR\<rparr>,
              \<lparr>d_name = ''tetris.gb'', d_type = DT_REG\<rparr>, \<lparr>d_name = ''(demo).gb'', d_type = DT_REG\<rparr>,
              \<lparr>d_name = ''hacks'', d_type = DT_DIR\<rparr>]
      else if p = ''/mnt/sda1/ROMS/gb/hacks'' then
        Some [\<lparr>d_name = ''.'', d_type = DT_DIR\<rparr>, \<lparr>d_name = ''..'', d_type = DT_DIR\<rparr>,
              \<lparr>d_name = ''kaizo.gb'', d_type = DT_REG\<rparr>]
      else if p = ''/mnt/sda1/ROMS/snes'' then
        Some [\<lparr>d_name = ''.'', d_type = DT_DIR\<rparr>, \<lparr>d_name = ''..'', d_type = DT_DIR\<rparr>]
      else if p = ''/mnt/sda1/ROMS/nes'' then
        Some [\<lparr>d_name = ''.'', d_type = DT_DIR\<rparr>, \<lparr>d_name = ''..'', d_type = DT_DIR\<rparr>,
              \<lparr>d_name = ''contra.nes'', d_type = DT_REG\<rparr>]
      else None)"

definition example_env :: env where
  "example_env =
     \<lparr>opendir = example_fs,
      stat_is_dir = (\<lambda>p. if p = ''/mnt/sda1/ROMS/nes'' then Some True else None),
      realloc_ok = (\<lambda>c. True),
      fresh_cell = \<lparr>path = [], name = [], is_dir = False\<rparr>,
      cache_file = None\<rparr>"

definition no_memory_env :: env where
  "no_memory_env = example_env\<lparr>realloc_ok := (\<lambda>c. False)\<rparr>"

definition unavailable_env :: env where
  "unavailable_env = example_env\<lparr>opendir := (\<lambda>p. None)\<rparr>"

definition tools_listing_state :: state where
  "tools_listing_state =
     initial_state\<lparr>entries := [mk_entry ''Hotkeys'' ''HOTKEYS'' True, mk_entry ''Credits'' ''CREDITS'' True,
                                 mk_entry ''Utils'' ''UTILS'' True, mk_entry ''..'' ROMS_PATH True]
                               @ replicate 60 \<lparr>path = [], name = [], is_dir = False\<rparr>,
                   entry_count := 4, current_path := ''TOOLS''\<rparr>"

section \<open>Loops that look for a row\<close>

text \<open>
  \<open>handle_input\<close> has several loops of the form
  \<open>for (i = 0; i < entry_count; i++) if (P (entries[i])) { ...i...; break; }\<close>.
  \<open>first_index\<close> is the index at which such a loop breaks, \<open>None\<close> when it runs to the
  end.
\<close>

fun first_index_from :: "('a \<Rightarrow> bool) \<Rightarrow> 'a list \<Rightarrow> int \<Rightarrow> int option" where
  "first_index_from P [] i = None"
| "first_index_from P (x # xs) i = (if P x then Some i else first_index_from P xs (i + 1))"

definition first_index :: "(MenuEntry \<Rightarrow> bool) \<Rightarrow> state \<Rightarrow> int option" where
  "first_index P s = first_index_from P (listing s) 0"

section \<open>The A-Z picker\<close>

text \<open>
  Lines 1764-1771: the table of the 28 search strings, one letter each for the cells 0 to
  25, the string \<open>0\<close> for cell 26 and the empty string for cell 27; \<open>c_first\<close> is
  \<open>s[0]\<close> of a C string, the terminating NUL when the string is empty.
\<close>

definition search_chars :: "string list" where
  "search_chars = map (\<lambda>c. [c]) ''ABCDEFGHIJKLMNOPQRSTUVWXYZ0'' @ [[]]"

definition c_first :: "string \<Rightarrow> char" where
  "c_first s = (case s of [] \<Rightarrow> CHR 0x00 | c # _ \<Rightarrow> c)"

text \<open>Lines 1775-1778: the first character of a name, lower-case letters made upper-case.\<close>

definition entry_first_upper :: "MenuEntry \<Rightarrow> char" where
  "entry_first_upper en =
     (let entry_first = c_first (name en)
      in if CHR ''a'' \<le> entry_first \<and> entry_first \<le> CHR ''z''
         then char_of (of_char entry_first - (97::nat) + 65)
         else entry_first)"

text \<open>Lines 1780-1796: the three tests of the loop body, in their order.\<close>

definition az_row_matches :: "int \<Rightarrow> char \<Rightarrow> MenuEntry \<Rightarrow> bool" where
  "az_row_matches az first_char en =
     (let entry_first = entry_first_upper en
      in if az = 26 \<and> CHR ''0'' \<le> entry_first \<and> entry_first \<le> CHR ''9'' then True
         else if az = 27 \<and> \<not> ((CHR ''A'' \<le> entry_first \<and> entry_first \<le> CHR ''Z'')
                               \<or> (CHR ''0'' \<le> entry_first \<and> entry_first \<le> CHR ''9'')) then True
         else if az < 26 \<and> entry_first = first_char then True
         else False)"

text \<open>Lines 1763-1800: A released while the picker is open.\<close>

definition az_confirm :: "state \<Rightarrow> error + state" where
  "az_confirm s =
     (if 0 \<le> az_selected_index s \<and> az_selected_index s < 28
      then
        (let first_char = c_first (search_chars ! nat (az_selected_index s));
             s1 = (case first_index (az_row_matches (az_selected_index s) first_char) s of
                     None \<Rightarrow> s
                   | Some i \<Rightarrow> s\<lparr>selected_index := i\<rparr>)
         in Inr (s1\<lparr>az_picker_active := False\<rparr>))
      else Inl OutOfBounds)"

text \<open>Lines 1749-1760: the cursor on the grid of seven columns.\<close>

definition az_move :: "bool \<Rightarrow> bool \<Rightarrow> bool \<Rightarrow> bool \<Rightarrow> state \<Rightarrow> state" where
  "az_move up_rel down_rel left_rel right_rel s =
     (let s1 = (if up_rel \<and> az_selected_index s \<ge> 7
                then s\<lparr>az_selected_index := az_selected_index s - 7\<rparr> else s);
          s2 = (if down_rel \<and> az_selected_index s1 < 21
                then s1\<lparr>az_selected_index := az_selected_index s1 + 7\<rparr> else s1);
          s3 = (if left_rel \<and> az_selected_index s2 > 0
                then s2\<lparr>az_selected_index := az_selected_index s2 - 1\<rparr> else s2)
      in if right_rel \<and> az_selected_index s3 < 27
         then s3\<lparr>az_selected_index := az_selected_index s3 + 1\<rparr> else s3)"

text \<open>
  Lines 1747-1816: one frame of input while \<open>az_picker_active\<close> is set. The flags are the
  release edges of UP, DOWN, LEFT, RIGHT, A and B.
\<close>

definition az_picker_input :: "bool \<Rightarrow> bool \<Rightarrow> bool \<Rightarrow> bool \<Rightarrow> bool \<Rightarrow> bool \<Rightarrow> state \<Rightarrow> error + state" where
  "az_picker_input up_rel down_rel left_rel right_rel a_rel b_rel s =
     (case (if a_rel then az_confirm (az_move up_rel down_rel left_rel right_rel s)
            else Inr (az_move up_rel down_rel left_rel right_rel s)) of
        Inl x \<Rightarrow> Inl x
      | Inr s1 \<Rightarrow> Inr (if b_rel then s1\<lparr>az_picker_active := False\<rparr> else s1))"

text \<open>
  The buckets in the words of the specification: bucket \<open>b\<close> below 26 is the letter number
  \<open>b\<close>, bucket 26 the digits, bucket 27 everything that is neither an upper-case letter
  nor a digit.
\<close>

definition in_bucket :: "int \<Rightarrow> char \<Rightarrow> bool" where
  "in_bucket b c \<longleftrightarrow>
     (if b < 26 then c = char_of (65 + nat b)
      else if b = 26 then CHR ''0'' \<le> c \<and> c \<le> CHR ''9''
      else \<not> ((CHR ''A'' \<le> c \<and> c \<le> CHR ''Z'') \<or> (CHR ''0'' \<le> c \<and> c \<le> CHR ''9'')))"

definition fruit_state :: state where
  "fruit_state =
     initial_state\<lparr>entries := [mk_entry ''Banana'' ''/mnt/sda1/ROMS/gb/Banana'' False,
                                 mk_entry ''apple'' ''/mnt/sda1/ROMS/gb/apple'' False,
                                 mk_entry ''Cherry'' ''/mnt/sda1/ROMS/gb/Cherry'' False],
                   entry_count := 3, current_path := ''/mnt/sda1/ROMS/gb'',
                   az_picker_active := True, az_selected_index := 0\<rparr>"

section \<open>Launching a row of the recent games or the favorites\<close>

text \<open>
  The fields of \<open>RecentGame\<close> that this file uses (recent_games.h is not among the
  sources); \<open>FavoriteGame\<close> is used with the same fields. \<open>strchr\<close> gives the position of
  the first occurrence of a character.
\<close>

record RecentGame =
  core_name :: string
  game_name :: string
  full_path :: string
  display_name :: string

type_synonym FavoriteGame = RecentGame

fun strchr :: "string \<Rightarrow> char \<Rightarrow> nat option" where
  "strchr [] c = None"
| "strchr (x # xs) c = (if x = c then Some 0 else map_option Suc (strchr xs c))"

text \<open>
  Lines 2053-2059 and 2082-2088: the directory of the first stored game with this core and
  name; when there is none, \<open>directory\<close> stays an uninitialised buffer (\<open>None\<close>).
\<close>

fun lookup_full_path :: "RecentGame list \<Rightarrow> string \<Rightarrow> string \<Rightarrow> string option" where
  "lookup_full_path [] c f = None"
| "lookup_full_path (g # gs) c f =
     (if core_name g = c \<and> game_name g = f then Some (full_path g)
      else lookup_full_path gs c f)"

text \<open>
  \<open>init_direct_loader (core_name, directory, filename)\<close> hands the game to the loader; the
  model records the call. (\<open>directory\<close> is a buffer of 256 bytes filled by \<open>strcpy\<close>;
  the model keeps the stored path whole.)
\<close>

datatype launch = Launch string "string option" string

text \<open>
  Lines 2031-2059 (recent games) and 2060-2088 (favorites), which differ only in the list
  they search, followed by the call of line 2098: A released on a file row of one of the two
  views. \<open>None\<close> is the \<open>return\<close> of lines 2035 and 2064.
\<close>

definition confirm_game_row :: "RecentGame list \<Rightarrow> MenuEntry \<Rightarrow> launch option" where
  "confirm_game_row games entry =
     (case strchr (path entry) (CHR '';'') of
        None \<Rightarrow> None
      | Some separator \<Rightarrow>
          (let core_len = (if separator \<ge> 256 then 255 else separator);
               core = take core_len (path entry);
               filename = take 255 (drop (separator + 1) (path entry))
           in Some (Launch core (lookup_full_path games core filename) filename)))"

section \<open>Entering a folder and going back\<close>










section \<open>Stepping: results\<close>






text \<open>
  C1. With \<open>entry_count = 0\<close> the controller is required not to step. The stepping handlers
  have no such guard (the X and A handlers and the quick-jump opener do test
  \<open>entry_count > 0\<close>): on the hotkeys screen, which sets \<open>entry_count = 0\<close>, releasing R
  evaluates \<open>(0 + 7) % 0\<close>, releasing UP sets \<open>selected_index\<close> to \<open>-1\<close> and releasing L
  sets it to \<open>-7\<close>.
\<close>

theorem stepping_on_empty_store_steps:
  "handle_stepping V False False False True (show_hotkeys_screen s) = Inl DivByZero
   \<and> (\<exists>s'. handle_stepping V True False False False (show_hotkeys_screen s) = Inr s'
            \<and> entry_count s' = 0 \<and> selected_index s' = -1)
   \<and> (\<exists>s'. handle_stepping V False False True False (show_hotkeys_screen s) = Inr s'
            \<and> entry_count s' = 0 \<and> selected_index s' = -7)"
  by (simp add: handle_stepping_def step_r_def step_up_def step_l_def c_mod_def
      show_hotkeys_screen_def reset_navigation_state_def)

text \<open>
  C2, as stated: from \<open>entry_count - 3\<close> a page step forward lands on row 3. The code
  computes \<open>(entry_count - 3 + 7) % entry_count\<close>, which is 4: with ten rows, from row 7
  the selection moves to row 4.
\<close>

theorem page_step_from_count_minus_3_counterexample:
  "step_r 7 (listing_state 10 7 1) = Inr (listing_state 10 4 1)
   \<and> selected_index (listing_state 10 4 1) \<noteq> 3"
  by (simp add: step_r_def c_mod_def listing_state_def initial_state_def signed_modulo_int_def)

text \<open>
  C2, amended: for every \<open>entry_count > 7\<close>, a page step forward from
  \<open>selected_index = entry_count - 3\<close> sets \<open>selected_index\<close> to 4.
\<close>

theorem page_step_from_count_minus_3:
  assumes "7 < entry_count s" "selected_index s = entry_count s - 3"
  shows "\<exists>s'. step_r V s = Inr s' \<and> selected_index s' = 4"
proof -
  have wrap: "(selected_index s + 7) smod entry_count s = 4"
    using assms by (simp add: signed_modulo_int_def)
  have far: "\<not> selected_index s < entry_count s - 7"
    using assms by simp
  have nz: "entry_count s \<noteq> 0"
    using assms by simp
  show ?thesis
    by (simp add: step_r_def c_mod_def wrap far nz)
qed

theorem page_step_from_count_minus_3_witness:
  "\<exists>s'. step_r 7 (listing_state 10 7 1) = Inr s' \<and> selected_index s' = 4"
proof -
  have a: "7 < entry_count (listing_state 10 7 1)"
    by (simp add: listing_state_def)
  have b: "selected_index (listing_state 10 7 1) = entry_count (listing_state 10 7 1) - 3"
    by (simp add: listing_state_def)
  show ?thesis using page_step_from_count_minus_3 [OF a b] .
qed

lemma step_up_wraps_out_of_window:
  assumes "1 \<le> V" "V < int n"
  shows "step_up (listing_state n 0 0) = listing_state n (int n - 1) 0"
    and "\<not> viewport_inv V (listing_state n (int n - 1) 0)"
proof -
  have "0 < n" using assms by simp
  then show "step_up (listing_state n 0 0) = listing_state n (int n - 1) 0"
    by (simp add: step_up_def listing_state_def Let_def)
  show "\<not> viewport_inv V (listing_state n (int n - 1) 0)"
    using assms by (simp add: listing_state_def viewport_inv_def)
qed





section \<open>The entry array and the scanner: lemmas\<close>

lemma double_capacity_terminates:
  assumes "0 < c"
  shows "\<exists>k. double_capacity c r = Some k \<and> c \<le> k \<and> r \<le> k"
  using assms
proof (induction "nat (r - c)" arbitrary: c rule: less_induct)
  case less
  show ?case
  proof (cases "c < r")
    case True
    have "nat (r - c * 2) < nat (r - c)" using True less.prems by simp
    moreover have "0 < c * 2" using less.prems by simp
    ultimately obtain k where "double_capacity (c * 2) r = Some k" "c * 2 \<le> k" "r \<le> k"
      using less.hyps by blast
    with True less.prems show ?thesis
      by (subst double_capacity.simps) auto
  next
    case False
    then show ?thesis by (subst double_capacity.simps) simp
  qed
qed

lemma ensure_entries_capacity_result:
  "\<exists>pad. ensure_entries_capacity e r s = Inr (s\<lparr>entries := entries s @ pad\<rparr>)
         \<and> ((\<forall>c. realloc_ok e c) \<longrightarrow> r \<le> int (length (entries s @ pad)))
         \<and> (r \<le> entries_capacity s \<longrightarrow> pad = [])
         \<and> ((\<forall>c. \<not> realloc_ok e c) \<longrightarrow> pad = [])"
proof (cases "entries_capacity s \<ge> r")
  case True
  then show ?thesis
    by (intro exI [of _ "[]"]) (simp add: ensure_entries_capacity_def entries_capacity_def)
next
  case False
  define c0 where "c0 = (if entries_capacity s = 0 then INITIAL_ENTRIES_CAPACITY else entries_capacity s)"
  have "0 < c0" by (simp add: c0_def INITIAL_ENTRIES_CAPACITY_def entries_capacity_def)
  from double_capacity_terminates [OF this, of r]
  obtain k where k: "double_capacity c0 r = Some k" "c0 \<le> k" "r \<le> k" by blast
  have len: "int (length (entries s)) \<le> k"
    using k(2) by (simp add: c0_def entries_capacity_def INITIAL_ENTRIES_CAPACITY_def split: if_splits)
  show ?thesis
  proof (cases "realloc_ok e k")
    case True
    have "ensure_entries_capacity e r s
          = Inr (s\<lparr>entries := entries s @ replicate (nat k - length (entries s)) (fresh_cell e)\<rparr>)"
      using False k(1) True by (simp add: ensure_entries_capacity_def c0_def)
    moreover have "r \<le> int (length (entries s @ replicate (nat k - length (entries s)) (fresh_cell e)))"
      using len k(3) by simp
    ultimately show ?thesis using False True by (intro exI [of _ "replicate (nat k - length (entries s)) (fresh_cell e)"]) auto
  next
    case nok: False
    have "ensure_entries_capacity e r s = Inr s"
      using False k(1) nok by (simp add: ensure_entries_capacity_def c0_def)
    then show ?thesis using False nok by (intro exI [of _ "[]"]) auto
  qed
qed

lemma load_update:
  "load_empty_dirs_cache e (s\<lparr>entries := xs, entry_count := k\<rparr>)
   = (load_empty_dirs_cache e s)\<lparr>entries := xs, entry_count := k\<rparr>"
  by (simp add: load_empty_dirs_cache_def rebuild_empty_dirs_cache_def Let_def split: option.splits)

lemma load_loaded: "empty_dirs_loaded (load_empty_dirs_cache e s)"
  by (simp add: load_empty_dirs_cache_def rebuild_empty_dirs_cache_def Let_def split: option.splits)

lemma load_idem: "load_empty_dirs_cache e (load_empty_dirs_cache e s) = load_empty_dirs_cache e s"
  using load_loaded [of e s] by (simp add: load_empty_dirs_cache_def [of e "load_empty_dirs_cache e s"])

lemma load_fields:
  "entries (load_empty_dirs_cache e s) = entries s"
  "entry_count (load_empty_dirs_cache e s) = entry_count s"
  "hide_empty_folders (load_empty_dirs_cache e s) = hide_empty_folders s"
  "selected_index (load_empty_dirs_cache e s) = selected_index s"
  "scroll_offset (load_empty_dirs_cache e s) = scroll_offset s"
  "current_path (load_empty_dirs_cache e s) = current_path s"
  by (simp_all add: load_empty_dirs_cache_def rebuild_empty_dirs_cache_def Let_def split: option.splits)

lemma cache_view_load: "cache_view e (load_empty_dirs_cache e s) = cache_view e s"
  by (simp add: cache_view_def load_idem)

lemma cache_view_update:
  "cache_view e (s\<lparr>entries := xs, entry_count := k\<rparr>) = cache_view e s"
  by (simp add: cache_view_def load_update)

lemma push_row:
  assumes "0 \<le> entry_count s" "entry_count s \<le> entries_capacity s"
  shows "(case ensure_entries_capacity e (entry_count s + 1) s of
            Inl x \<Rightarrow> Inl x | Inr s2 \<Rightarrow> append_entry v s2) = Inl OutOfBounds
         \<and> entry_count s = entries_capacity s \<and> \<not> (\<forall>c. realloc_ok e c)
         \<or> (\<exists>xs. (case ensure_entries_capacity e (entry_count s + 1) s of
                     Inl x \<Rightarrow> Inl x | Inr s2 \<Rightarrow> append_entry v s2)
                  = Inr (s\<lparr>entries := xs, entry_count := entry_count s + 1\<rparr>)
               \<and> take (nat (entry_count s + 1)) xs = listing s @ [v]
               \<and> entry_count s + 1 \<le> int (length xs)
               \<and> length (entries s) \<le> length xs
               \<and> ((\<forall>c. \<not> realloc_ok e c) \<longrightarrow> length xs = length (entries s)))"
proof -
  obtain pad where pad: "ensure_entries_capacity e (entry_count s + 1) s = Inr (s\<lparr>entries := entries s @ pad\<rparr>)"
    "(\<forall>c. realloc_ok e c) \<longrightarrow> entry_count s + 1 \<le> int (length (entries s @ pad))"
    "(\<forall>c. \<not> realloc_ok e c) \<longrightarrow> pad = []"
    using ensure_entries_capacity_result [of e "entry_count s + 1" s] by blast
  define n where "n = nat (entry_count s)"
  have n: "entry_count s = int n" "n \<le> length (entries s)"
    using assms by (simp_all add: n_def entries_capacity_def)
  show ?thesis
  proof (cases "n < length (entries s @ pad)")
    case True
    have "take (Suc n) ((entries s @ pad)[n := v]) = take n (entries s) @ [v]"
      using True n(2) by (simp add: take_Suc_conv_app_nth)
    then have "take (nat (entry_count s + 1)) ((entries s @ pad)[n := v]) = listing s @ [v]"
      by (simp add: n(1) listing_def nat_add_distrib)
    moreover have "entry_count s + 1 \<le> int (length ((entries s @ pad)[n := v]))"
      using True n(1) by simp
    moreover have "length (entries s) \<le> length ((entries s @ pad)[n := v])" by simp
    moreover have "(\<forall>c. \<not> realloc_ok e c) \<longrightarrow> length ((entries s @ pad)[n := v]) = length (entries s)"
      using pad(3) by simp
    moreover have "(case ensure_entries_capacity e (entry_count s + 1) s of
                     Inl x \<Rightarrow> Inl x | Inr s2 \<Rightarrow> append_entry v s2)
                  = Inr (s\<lparr>entries := (entries s @ pad)[n := v], entry_count := entry_count s + 1\<rparr>)"
      unfolding pad(1) using True n(1)
      by (simp add: append_entry_def set_entry_def entries_capacity_def)
    ultimately show ?thesis by blast
  next
    case False
    then have "length pad = 0 \<and> n = length (entries s)"
      using n(2) unfolding length_append by arith
    then have full: "entry_count s = entries_capacity s" "pad = []"
      using n(1) by (simp_all add: entries_capacity_def)
    have "\<not> (\<forall>c. realloc_ok e c)"
      using pad(2) full by (auto simp: entries_capacity_def)
    moreover have "(case ensure_entries_capacity e (entry_count s + 1) s of
                     Inl x \<Rightarrow> Inl x | Inr s2 \<Rightarrow> append_entry v s2) = Inl OutOfBounds"
      unfolding pad(1) using False n(1)
      by (simp add: append_entry_def set_entry_def entries_capacity_def)
    ultimately show ?thesis using full by blast
  qed
qed

lemma scan_loop_Cons:
  assumes "entry_name = take 255 (d_name ent)"
    and "fpath = take 511 (p @ ''/'' @ entry_name)"
    and "isdir = is_directory_fast e fpath (d_type ent)"
    and "s1 = (if r \<and> isdir \<and> hide_empty_folders s then load_empty_dirs_cache e s else s)"
    and "v = mk_entry entry_name fpath isdir"
  shows "scan_loop e p r (ent # rest) s =
     (if starts_with_dot (d_name ent) \<or> reserved_name (d_name ent) \<or> (r \<and> \<not> isdir)
      then scan_loop e p r rest s
      else if r \<and> isdir \<and> hide_empty_folders s \<and> is_in_empty_cache s1 entry_name
      then scan_loop e p r rest s1
      else (case (case ensure_entries_capacity e (entry_count s1 + 1) s1 of
                    Inl x \<Rightarrow> Inl x
                  | Inr s2 \<Rightarrow> append_entry v s2) of
              Inl x \<Rightarrow> Inl x
            | Inr s3 \<Rightarrow> scan_loop e p r rest s3))"
proof (cases "starts_with_dot (d_name ent) \<or> reserved_name (d_name ent)")
  case True
  then show ?thesis by auto
next
  case False
  show ?thesis
  proof (cases "r \<and> isdir \<and> hide_empty_folders s")
    case True
    with False show ?thesis
      unfolding assms
      by (simp add: Let_def split: sum.splits)
  next
    case nf: False
    with False show ?thesis
      unfolding assms
      by (cases r; cases "is_directory_fast e (take 511 (p @ ''/'' @ take 255 (d_name ent))) (d_type ent)")
         (simp_all add: Let_def split: sum.splits)
  qed
qed

lemma scanned_rows_Cons:
  assumes "entry_name = take 255 (d_name ent)"
    and "fpath = take 511 (p @ ''/'' @ entry_name)"
    and "isdir = is_directory_fast e fpath (d_type ent)"
    and "v = mk_entry entry_name fpath isdir"
  shows "scanned_rows e p r hide cache (ent # rest) =
     (if starts_with_dot (d_name ent) \<or> reserved_name (d_name ent) \<or> (r \<and> \<not> isdir)
      then scanned_rows e p r hide cache rest
      else if r \<and> isdir \<and> hide \<and> list_ex (\<lambda>d. strcasecmp_eq d entry_name) cache
      then scanned_rows e p r hide cache rest
      else v # scanned_rows e p r hide cache rest)"
  unfolding assms
  by (simp add: Let_def)

lemma scan_ok_load:
  assumes "scan_ok e (load_empty_dirs_cache e s) rows res"
  shows "scan_ok e s rows res"
proof -
  have l: "listing (load_empty_dirs_cache e s) = listing s"
    "entries_capacity (load_empty_dirs_cache e s) = entries_capacity s"
    by (simp_all add: listing_def entries_capacity_def load_fields)
  from assms show ?thesis
    unfolding scan_ok_def l load_fields load_idem
  proof (elim disjE exE conjE)
    fix b xs
    assume "res = Inr ((if b then load_empty_dirs_cache e s else load_empty_dirs_cache e s)
                 \<lparr>entries := xs, entry_count := entry_count s + int (length rows)\<rparr>)"
      and rest: "take (nat (entry_count s + int (length rows))) xs = listing s @ rows"
        "entry_count s + int (length rows) \<le> int (length xs)"
        "length (entries s) \<le> length xs"
        "(\<forall>c. \<not> realloc_ok e c) \<longrightarrow> length xs = length (entries s)"
    then have "res = Inr ((if True then load_empty_dirs_cache e s else s)
                 \<lparr>entries := xs, entry_count := entry_count s + int (length rows)\<rparr>)"
      by simp
    with rest show "res = Inl OutOfBounds \<and> \<not> (\<forall>c. realloc_ok e c)
        \<and> entries_capacity s < entry_count s + int (length rows)
     \<or> (\<exists>b xs. res = Inr ((if b then load_empty_dirs_cache e s else s)
                              \<lparr>entries := xs, entry_count := entry_count s + int (length rows)\<rparr>)
           \<and> take (nat (entry_count s + int (length rows))) xs = listing s @ rows
           \<and> entry_count s + int (length rows) \<le> int (length xs)
           \<and> length (entries s) \<le> length xs
           \<and> ((\<forall>c. \<not> realloc_ok e c) \<longrightarrow> length xs = length (entries s)))"
      by blast
  qed blast
qed

lemma scan_ok_push:
  assumes s3: "s3 = s\<lparr>entries := xs, entry_count := entry_count s + 1\<rparr>"
    and xs: "take (nat (entry_count s + 1)) xs = listing s @ [v]"
      "entry_count s + 1 \<le> int (length xs)" "length (entries s) \<le> length xs"
      "(\<forall>c. \<not> realloc_ok e c) \<longrightarrow> length xs = length (entries s)"
    and nn: "0 \<le> entry_count s"
    and ok: "scan_ok e s3 rows res"
  shows "scan_ok e s (v # rows) res"
proof -
  have f: "entry_count s3 = entry_count s + 1" "entries s3 = xs"
    "entries_capacity s3 = int (length xs)" "listing s3 = listing s @ [v]"
    using xs(1) by (simp_all add: s3 entries_capacity_def listing_def)
  have ld: "load_empty_dirs_cache e s3
            = (load_empty_dirs_cache e s)\<lparr>entries := xs, entry_count := entry_count s + 1\<rparr>"
    unfolding s3 by (rule load_update)
  have cnt: "entry_count s + 1 + int (length rows) = entry_count s + int (length (v # rows))"
    by simp
  from ok show ?thesis
    unfolding scan_ok_def [of e s3] f
  proof (elim disjE exE conjE)
    assume "res = Inl OutOfBounds" "\<not> (\<forall>c. realloc_ok e c)"
      "int (length xs) < entry_count s + 1 + int (length rows)"
    then show ?thesis
      using xs(3) by (simp add: scan_ok_def entries_capacity_def)
  next
    fix b ys
    assume res: "res = Inr ((if b then load_empty_dirs_cache e s3 else s3)
                   \<lparr>entries := ys, entry_count := entry_count s + 1 + int (length rows)\<rparr>)"
      and ys: "take (nat (entry_count s + 1 + int (length rows))) ys = (listing s @ [v]) @ rows"
        "entry_count s + 1 + int (length rows) \<le> int (length ys)"
        "length xs \<le> length ys"
        "(\<forall>c. \<not> realloc_ok e c) \<longrightarrow> length ys = length xs"
    have "res = Inr ((if b then load_empty_dirs_cache e s else s)
                   \<lparr>entries := ys, entry_count := entry_count s + int (length (v # rows))\<rparr>)"
      unfolding res ld by (cases b) (simp_all add: s3 add.assoc)
    moreover have "take (nat (entry_count s + int (length (v # rows)))) ys = listing s @ v # rows"
      using ys(1) unfolding cnt by simp
    moreover have "entry_count s + int (length (v # rows)) \<le> int (length ys)"
      using ys(2) unfolding cnt .
    moreover have "length (entries s) \<le> length ys" using xs(3) ys(3) by simp
    moreover have "(\<forall>c. \<not> realloc_ok e c) \<longrightarrow> length ys = length (entries s)"
      using xs(4) ys(4) by simp
    ultimately show ?thesis unfolding scan_ok_def by blast
  qed
qed

lemma scan_loop_rows:
  assumes "0 \<le> entry_count s" "entry_count s \<le> entries_capacity s"
  shows "scan_ok e s (scanned_rows e p r (hide_empty_folders s) (cache_view e s) ents)
           (scan_loop e p r ents s)"
  using assms
proof (induction ents arbitrary: s)
  case Nil
  have "Inr s = Inr ((if False then load_empty_dirs_cache e s else s)
              \<lparr>entries := entries s, entry_count := entry_count s + int (length ([]::MenuEntry list))\<rparr>)
         \<and> take (nat (entry_count s + int (length ([]::MenuEntry list)))) (entries s) = listing s @ []
         \<and> entry_count s + int (length ([]::MenuEntry list)) \<le> int (length (entries s))
         \<and> length (entries s) \<le> length (entries s)
         \<and> ((\<forall>c. \<not> realloc_ok e c) \<longrightarrow> length (entries s) = length (entries s))"
    using Nil by (simp add: listing_def entries_capacity_def)
  then show ?case
    unfolding scan_ok_def scan_loop.simps scanned_rows.simps
    by (intro disjI2 exI [of _ False] exI [of _ "entries s"])
next
  case (Cons ent rest)
  define entry_name where "entry_name = take 255 (d_name ent)"
  define fpath where "fpath = take 511 (p @ ''/'' @ entry_name)"
  define isdir where "isdir = is_directory_fast e fpath (d_type ent)"
  define s1 where "s1 = (if r \<and> isdir \<and> hide_empty_folders s then load_empty_dirs_cache e s else s)"
  define v where "v = mk_entry entry_name fpath isdir"
  define hide where "hide = hide_empty_folders s"
  define cache where "cache = cache_view e s"
  note loop = scan_loop_Cons [OF entry_name_def fpath_def isdir_def s1_def v_def, of rest]
  note rows = scanned_rows_Cons [OF entry_name_def fpath_def isdir_def v_def, of r hide cache rest]
  have s1f: "entry_count s1 = entry_count s" "entries_capacity s1 = entries_capacity s"
    "hide_empty_folders s1 = hide" "cache_view e s1 = cache"
    by (simp_all add: s1_def load_fields entries_capacity_def cache_view_load hide_def cache_def)
  have pre1: "0 \<le> entry_count s1" "entry_count s1 \<le> entries_capacity s1"
    using Cons.prems by (simp_all add: s1f)
  have lift1: "scan_ok e s1 rws res \<Longrightarrow> scan_ok e s rws res" for rws res
    by (cases "r \<and> isdir \<and> hide_empty_folders s") (simp_all add: s1_def scan_ok_load)
  show ?case
    unfolding hide_def [symmetric] cache_def [symmetric]
  proof (cases "starts_with_dot (d_name ent) \<or> reserved_name (d_name ent) \<or> (r \<and> \<not> isdir)")
    case True
    then have "scan_loop e p r (ent # rest) s = scan_loop e p r rest s"
      "scanned_rows e p r hide cache (ent # rest) = scanned_rows e p r hide cache rest"
      unfolding loop rows by simp_all
    then show "scan_ok e s (scanned_rows e p r hide cache (ent # rest)) (scan_loop e p r (ent # rest) s)"
      using Cons.IH [OF Cons.prems] by (simp add: hide_def cache_def)
  next
    case False
    show "scan_ok e s (scanned_rows e p r hide cache (ent # rest)) (scan_loop e p r (ent # rest) s)"
    proof (cases "r \<and> isdir \<and> hide_empty_folders s \<and> is_in_empty_cache s1 entry_name")
      case True
      then have "s1 = load_empty_dirs_cache e s" by (simp add: s1_def)
      then have "is_in_empty_cache s1 entry_name = list_ex (\<lambda>d. strcasecmp_eq d entry_name) cache"
        by (simp add: is_in_empty_cache_def cache_def cache_view_def)
      with True False have "scan_loop e p r (ent # rest) s = scan_loop e p r rest s1"
        "scanned_rows e p r hide cache (ent # rest) = scanned_rows e p r hide cache rest"
        unfolding loop rows by (simp_all add: hide_def)
      moreover have "scan_ok e s1 (scanned_rows e p r hide cache rest) (scan_loop e p r rest s1)"
        using Cons.IH [OF pre1] by (simp add: s1f)
      ultimately show ?thesis
        using lift1 by simp
    next
      case nc: False
      have "\<not> (r \<and> isdir \<and> hide \<and> list_ex (\<lambda>d. strcasecmp_eq d entry_name) cache)"
      proof
        assume a: "r \<and> isdir \<and> hide \<and> list_ex (\<lambda>d. strcasecmp_eq d entry_name) cache"
        then have "s1 = load_empty_dirs_cache e s" by (simp add: s1_def hide_def)
        then have "is_in_empty_cache s1 entry_name = list_ex (\<lambda>d. strcasecmp_eq d entry_name) cache"
          by (simp add: is_in_empty_cache_def cache_def cache_view_def)
        with a nc show False by (simp add: hide_def)
      qed
      with False have rws: "scanned_rows e p r hide cache (ent # rest) = v # scanned_rows e p r hide cache rest"
        unfolding rows by simp
      define push where "push = (case ensure_entries_capacity e (entry_count s1 + 1) s1 of
                    Inl x \<Rightarrow> Inl x | Inr s2 \<Rightarrow> append_entry v s2)"
      have lp: "scan_loop e p r (ent # rest) s
          = (case push of Inl x \<Rightarrow> Inl x | Inr s3 \<Rightarrow> scan_loop e p r rest s3)"
        unfolding loop push_def by (simp only: False nc if_False)
      from push_row [OF pre1, where e = e and v = v, folded push_def]
      show ?thesis
      proof (elim disjE exE conjE)
        assume "push = Inl OutOfBounds" "entry_count s1 = entries_capacity s1" "\<not> (\<forall>c. realloc_ok e c)"
        then show ?thesis
          unfolding lp rws by (simp add: scan_ok_def s1f)
      next
        fix xs
        assume p: "push = Inr (s1\<lparr>entries := xs, entry_count := entry_count s1 + 1\<rparr>)"
          and xs: "take (nat (entry_count s1 + 1)) xs = listing s1 @ [v]"
            "entry_count s1 + 1 \<le> int (length xs)" "length (entries s1) \<le> length xs"
            "(\<forall>c. \<not> realloc_ok e c) \<longrightarrow> length xs = length (entries s1)"
        define s3 where "s3 = s1\<lparr>entries := xs, entry_count := entry_count s1 + 1\<rparr>"
        have s3f: "hide_empty_folders s3 = hide" "cache_view e s3 = cache"
          "0 \<le> entry_count s3" "entry_count s3 \<le> entries_capacity s3"
          using pre1 xs(2) by (simp_all add: s3_def s1f cache_view_update entries_capacity_def)
        from Cons.IH [OF s3f(3,4)]
        have "scan_ok e s3 (scanned_rows e p r hide cache rest) (scan_loop e p r rest s3)"
          by (simp add: s3f)
        from scan_ok_push [OF s3_def xs pre1(1) this]
        have "scan_ok e s1 (v # scanned_rows e p r hide cache rest) (scan_loop e p r rest s3)" .
        then have "scan_ok e s (v # scanned_rows e p r hide cache rest) (scan_loop e p r rest s3)"
          by (rule lift1)
        then show ?thesis
          unfolding lp rws p s3_def [symmetric] by simp
      qed
    qed
  qed
qed

lemma listing_qsort: "listing (qsort_entries s) = sort_key name (listing s)"
proof -
  have "length (sort_key name (take (nat (entry_count s)) (entries s))) = min (length (entries s)) (nat (entry_count s))"
    by simp
  then show ?thesis
    by (cases "nat (entry_count s) \<le> length (entries s)")
       (simp_all add: listing_def qsort_entries_def)
qed

lemma qsort_entries_shape:
  "\<exists>xs. qsort_entries s = s\<lparr>entries := xs\<rparr> \<and> length xs = length (entries s)"
  by (intro exI [of _ "sort_key name (take (nat (entry_count s)) (entries s))
                        @ drop (nat (entry_count s)) (entries s)"])
     (simp add: qsort_entries_def)

lemma shift_entries_nth:
  assumes "lo \<le> i" "i < length (entries s)"
  shows "\<exists>xs. shift_entries (int lo) (int i) s = Inr (s\<lparr>entries := xs\<rparr>)
           \<and> length xs = length (entries s)
           \<and> (\<forall>j<length (entries s).
                 xs ! j = (if lo < j \<and> j \<le> i then entries s ! (j - 1) else entries s ! j))"
  using assms
proof (induction i arbitrary: s)
  case 0
  then have "shift_entries (int lo) (int 0) s = Inr (s\<lparr>entries := entries s\<rparr>)"
    by (subst shift_entries.simps) simp
  then show ?case using 0 by (intro exI [of _ "entries s"]) simp
next
  case (Suc i)
  show ?case
  proof (cases "lo = Suc i")
    case True
    have "shift_entries (int lo) (int (Suc i)) s = Inr (s\<lparr>entries := entries s\<rparr>)"
      by (subst shift_entries.simps) (simp add: True)
    moreover have "\<forall>j<length (entries s).
        entries s ! j = (if lo < j \<and> j \<le> Suc i then entries s ! (j - 1) else entries s ! j)"
      using True by auto
    ultimately show ?thesis by blast
  next
    case False
    with Suc.prems have lo: "lo \<le> i" by simp
    define s1 where "s1 = s\<lparr>entries := (entries s)[Suc i := entries s ! i]\<rparr>"
    have len1: "length (entries s1) = length (entries s)" by (simp add: s1_def)
    have step: "shift_entries (int lo) (int (Suc i)) s = shift_entries (int lo) (int i) s1"
      using lo Suc.prems(2)
      by (subst shift_entries.simps)
         (simp add: get_entry_def set_entry_def entries_capacity_def s1_def nat_add_distrib)
    have "i < length (entries s1)" using Suc.prems(2) len1 by simp
    from Suc.IH [OF lo this]
    obtain xs where xs: "shift_entries (int lo) (int i) s1 = Inr (s1\<lparr>entries := xs\<rparr>)"
      "length xs = length (entries s1)"
      "\<forall>j<length (entries s1). xs ! j = (if lo < j \<and> j \<le> i then entries s1 ! (j - 1) else entries s1 ! j)"
      by blast
    have same: "s1\<lparr>entries := xs\<rparr> = s\<lparr>entries := xs\<rparr>" by (simp add: s1_def)
    have "\<forall>j<length (entries s).
        xs ! j = (if lo < j \<and> j \<le> Suc i then entries s ! (j - 1) else entries s ! j)"
    proof (intro allI impI)
      fix j assume j: "j < length (entries s)"
      with xs(3) len1 have "xs ! j = (if lo < j \<and> j \<le> i then entries s1 ! (j - 1) else entries s1 ! j)"
        by simp
      then show "xs ! j = (if lo < j \<and> j \<le> Suc i then entries s ! (j - 1) else entries s ! j)"
        using j lo Suc.prems(2) by (cases "j = Suc i") (auto simp: s1_def nth_list_update)
    qed
    moreover have "shift_entries (int lo) (int (Suc i)) s = Inr (s\<lparr>entries := xs\<rparr>)"
      using step xs(1) same by simp
    moreover have "length xs = length (entries s)" using xs(2) len1 by simp
    ultimately show ?thesis by blast
  qed
qed

lemma shift_entries_full:
  assumes "int (length (entries s)) \<le> i" "lo < i" "0 \<le> lo"
  shows "shift_entries lo i s = Inl OutOfBounds"
  using assms
  by (subst shift_entries.simps)
     (simp add: get_entry_def set_entry_def entries_capacity_def)

lemma shifted_insert:
  assumes "k \<le> n" "n < length ys" "length xs = length ys"
    and sh: "\<forall>j<length ys. xs ! j = (if k < j \<and> j \<le> n then ys ! (j - 1) else ys ! j)"
  shows "take (Suc n) (xs[k := v]) = take k (take n ys) @ v # drop k (take n ys)"
proof (rule nth_equalityI)
  show "length (take (Suc n) (xs[k := v])) = length (take k (take n ys) @ v # drop k (take n ys))"
    using assms(1-3) by simp
next
  fix j assume "j < length (take (Suc n) (xs[k := v]))"
  then have j: "j \<le> n" using assms(2,3) by simp
  then have jl: "j < length ys" "j < length xs" using assms(2,3) by simp_all
  have lhs: "take (Suc n) (xs[k := v]) ! j = (if j = k then v else xs ! j)"
    using j jl by (simp add: nth_list_update)
  have lk: "length (take k (take n ys)) = k" using assms(1,2) by simp
  consider "j < k" | "j = k" | "k < j" by linarith
  then show "take (Suc n) (xs[k := v]) ! j = (take k (take n ys) @ v # drop k (take n ys)) ! j"
  proof cases
    case 1
    have "(take k (take n ys) @ v # drop k (take n ys)) ! j = take k (take n ys) ! j"
      using 1 lk by (simp add: nth_append)
    also have "\<dots> = ys ! j" using 1 assms(1) by simp
    also have "\<dots> = xs ! j" using sh jl(1) 1 by simp
    finally show ?thesis using 1 lhs by simp
  next
    case 2
    have "(take k (take n ys) @ v # drop k (take n ys)) ! j = v"
      using 2 lk by (simp add: nth_append)
    then show ?thesis using 2 lhs by simp
  next
    case 3
    then have jk: "j - k = Suc (j - k - 1)" by simp
    have "(take k (take n ys) @ v # drop k (take n ys)) ! j = (v # drop k (take n ys)) ! (j - k)"
      using 3 lk by (simp add: nth_append)
    also have "\<dots> = drop k (take n ys) ! (j - k - 1)"
      by (subst jk) simp
    also have "\<dots> = take n ys ! (k + (j - k - 1))"
      using assms(1,2) by (intro nth_drop) simp
    also have "k + (j - k - 1) = j - 1" using 3 by simp
    also have "take n ys ! (j - 1) = ys ! (j - 1)" using 3 j by simp
    also have "\<dots> = xs ! j" using sh jl(1) 3 j by simp
    finally show ?thesis using 3 lhs by simp
  qed
qed

lemma insert_row_result:
  assumes "k \<le> n" "entry_count s = int n" "n \<le> length (entries s)"
  shows "(n = length (entries s) \<and> insert_row (int k) v s = Inl OutOfBounds)
       \<or> (n < length (entries s)
          \<and> (\<exists>xs. insert_row (int k) v s = Inr (s\<lparr>entries := xs, entry_count := int n + 1\<rparr>)
                \<and> length xs = length (entries s)
                \<and> take (Suc n) xs = take k (listing s) @ v # drop k (listing s)))"
proof (cases "n < length (entries s)")
  case False
  with assms(3) have full: "n = length (entries s)" by simp
  have "insert_row (int k) v s = Inl OutOfBounds"
  proof (cases "k < n")
    case True
    then have "shift_entries (int k) (int n) s = Inl OutOfBounds"
      using full by (intro shift_entries_full) simp_all
    then show ?thesis by (simp add: insert_row_def assms(2))
  next
    case nk: False
    with assms(1) have "k = n" by simp
    then have "shift_entries (int k) (int n) s = Inr s"
      by (subst shift_entries.simps) simp
    then show ?thesis
      using full \<open>k = n\<close> by (simp add: insert_row_def assms(2) set_entry_def entries_capacity_def)
  qed
  with full show ?thesis by simp
next
  case True
  from shift_entries_nth [OF assms(1) True]
  obtain xs where xs: "shift_entries (int k) (int n) s = Inr (s\<lparr>entries := xs\<rparr>)"
    "length xs = length (entries s)"
    "\<forall>j<length (entries s). xs ! j = (if k < j \<and> j \<le> n then entries s ! (j - 1) else entries s ! j)"
    by blast
  have kl: "k < length xs" using assms(1) True xs(2) by simp
  have ins: "insert_row (int k) v s = Inr (s\<lparr>entries := xs[k := v], entry_count := int n + 1\<rparr>)"
    using kl by (simp add: insert_row_def assms(2) xs(1) set_entry_def entries_capacity_def)
  have L: "listing s = take n (entries s)" by (simp add: listing_def assms(2))
  have "take (Suc n) (xs[k := v]) = take k (listing s) @ v # drop k (listing s)"
    unfolding L using assms(1) True xs(2,3) by (rule shifted_insert)
  moreover have "length (xs[k := v]) = length (entries s)" using xs(2) by simp
  ultimately show ?thesis using ins True by blast
qed

lemma append_entry_result:
  assumes "entry_count s = int n" "n \<le> length (entries s)"
  shows "(n = length (entries s) \<and> append_entry v s = Inl OutOfBounds)
       \<or> (n < length (entries s)
          \<and> append_entry v s = Inr (s\<lparr>entries := (entries s)[n := v], entry_count := int n + 1\<rparr>)
          \<and> take (Suc n) ((entries s)[n := v]) = listing s @ [v])"
proof (cases "n < length (entries s)")
  case True
  have "take (Suc n) ((entries s)[n := v]) = take n (entries s) @ [v]"
    using True by (simp add: take_Suc_conv_app_nth)
  then show ?thesis
    using True by (simp add: append_entry_def set_entry_def entries_capacity_def assms(1) listing_def)
next
  case False
  then show ?thesis
    using assms(2) by (simp add: append_entry_def set_entry_def entries_capacity_def assms(1))
qed

lemma add_root_rows_result:
  assumes n: "entry_count s = int n" "n \<le> length (entries s)"
  shows "(add_root_rows e s = Inl OutOfBounds \<and> \<not> (\<forall>c. realloc_ok e c)
            \<and> length (entries s) < n + 4)
       \<or> (\<exists>xs. add_root_rows e s = Inr (s\<lparr>entries := xs, entry_count := int n + 4\<rparr>)
              \<and> n + 4 \<le> length xs \<and> length (entries s) \<le> length xs
              \<and> ((\<forall>c. \<not> realloc_ok e c) \<longrightarrow> length xs = length (entries s))
              \<and> take (n + 4) xs = recent_row # favorites_row # random_row # listing s @ [tools_row])"
proof -
  obtain pad where pad: "ensure_entries_capacity e (entry_count s + 4) s = Inr (s\<lparr>entries := entries s @ pad\<rparr>)"
    "(\<forall>c. realloc_ok e c) \<longrightarrow> entry_count s + 4 \<le> int (length (entries s @ pad))"
    "(\<forall>c. \<not> realloc_ok e c) \<longrightarrow> pad = []"
    using ensure_entries_capacity_result [of e "entry_count s + 4" s] by blast
  define m where "m = length (entries s @ pad)"
  define s1 where "s1 = s\<lparr>entries := entries s @ pad\<rparr>"
  have s1: "entry_count s1 = int n" "n \<le> length (entries s1)" "length (entries s1) = m"
    "listing s1 = listing s"
    using n by (simp_all add: s1_def m_def listing_def)
  have run: "add_root_rows e s =
     (case insert_row 0 recent_row s1 of
        Inl x \<Rightarrow> Inl x
      | Inr s2 \<Rightarrow>
          (case insert_row 1 favorites_row s2 of
             Inl x \<Rightarrow> Inl x
           | Inr s3 \<Rightarrow>
               (case insert_row 2 random_row s3 of
                  Inl x \<Rightarrow> Inl x
                | Inr s4 \<Rightarrow> append_entry tools_row s4)))"
    by (simp add: add_root_rows_def pad(1) s1_def)
  have fail: "m < n + 4 \<Longrightarrow> \<not> (\<forall>c. realloc_ok e c) \<and> length (entries s) < n + 4"
    using pad(2) n(1) by (auto simp: m_def)
  from insert_row_result [of 0 n s1 recent_row, OF _ s1(1,2)]
  have "(n = m \<and> insert_row 0 recent_row s1 = Inl OutOfBounds)
       \<or> (n < m \<and> (\<exists>xs. insert_row 0 recent_row s1 = Inr (s1\<lparr>entries := xs, entry_count := int n + 1\<rparr>)
                \<and> length xs = m \<and> take (Suc n) xs = recent_row # listing s))"
    by (simp add: s1)
  then show ?thesis
  proof (elim disjE conjE exE)
    assume "n = m" "insert_row 0 recent_row s1 = Inl OutOfBounds"
    then show ?thesis using fail by (simp add: run)
  next
    fix xs2
    assume a2: "n < m" "insert_row 0 recent_row s1 = Inr (s1\<lparr>entries := xs2, entry_count := int n + 1\<rparr>)"
      "length xs2 = m" "take (Suc n) xs2 = recent_row # listing s"
    define s2 where "s2 = s1\<lparr>entries := xs2, entry_count := int n + 1\<rparr>"
    have s2: "entry_count s2 = int (Suc n)" "Suc n \<le> length (entries s2)" "length (entries s2) = m"
      "listing s2 = recent_row # listing s"
      using a2 by (simp_all add: s2_def listing_def nat_add_distrib)
    from insert_row_result [of 1 "Suc n" s2 favorites_row, OF _ s2(1,2)]
    have "(Suc n = m \<and> insert_row 1 favorites_row s2 = Inl OutOfBounds)
       \<or> (Suc n < m \<and> (\<exists>xs. insert_row 1 favorites_row s2 = Inr (s2\<lparr>entries := xs, entry_count := int (Suc n) + 1\<rparr>)
                \<and> length xs = m \<and> take (Suc (Suc n)) xs = recent_row # favorites_row # listing s))"
      by (simp add: s2)
    then show ?thesis
    proof (elim disjE conjE exE)
      assume "Suc n = m" "insert_row 1 favorites_row s2 = Inl OutOfBounds"
      then show ?thesis using fail a2(2) by (simp add: run s2_def)
    next
      fix xs3
      assume a3: "Suc n < m" "insert_row 1 favorites_row s2 = Inr (s2\<lparr>entries := xs3, entry_count := int (Suc n) + 1\<rparr>)"
        "length xs3 = m" "take (Suc (Suc n)) xs3 = recent_row # favorites_row # listing s"
      define s3 where "s3 = s2\<lparr>entries := xs3, entry_count := int (Suc n) + 1\<rparr>"
      have s3: "entry_count s3 = int (Suc (Suc n))" "Suc (Suc n) \<le> length (entries s3)"
        "length (entries s3) = m" "listing s3 = recent_row # favorites_row # listing s"
        using a3 by (simp_all add: s3_def listing_def nat_add_distrib)
      from insert_row_result [of 2 "Suc (Suc n)" s3 random_row, OF _ s3(1,2)]
      have "(Suc (Suc n) = m \<and> insert_row 2 random_row s3 = Inl OutOfBounds)
         \<or> (Suc (Suc n) < m \<and> (\<exists>xs. insert_row 2 random_row s3
                    = Inr (s3\<lparr>entries := xs, entry_count := int (Suc (Suc n)) + 1\<rparr>)
                  \<and> length xs = m
                  \<and> take (Suc (Suc (Suc n))) xs = recent_row # favorites_row # random_row # listing s))"
        by (simp add: s3)
      then show ?thesis
      proof (elim disjE conjE exE)
        assume "Suc (Suc n) = m" "insert_row 2 random_row s3 = Inl OutOfBounds"
        then show ?thesis using fail a2(2) a3(2) by (simp add: run s2_def s3_def)
      next
        fix xs4
        assume a4: "Suc (Suc n) < m"
          "insert_row 2 random_row s3 = Inr (s3\<lparr>entries := xs4, entry_count := int (Suc (Suc n)) + 1\<rparr>)"
          "length xs4 = m"
          "take (Suc (Suc (Suc n))) xs4 = recent_row # favorites_row # random_row # listing s"
        define s4 where "s4 = s3\<lparr>entries := xs4, entry_count := int (Suc (Suc n)) + 1\<rparr>"
        have s4: "entry_count s4 = int (Suc (Suc (Suc n)))" "Suc (Suc (Suc n)) \<le> length (entries s4)"
          "length (entries s4) = m" "listing s4 = recent_row # favorites_row # random_row # listing s"
          using a4 by (simp_all add: s4_def listing_def nat_add_distrib numeral_3_eq_3)
        have run4: "add_root_rows e s = append_entry tools_row s4"
          using a2(2) a3(2) a4(2) by (simp add: run s2_def s3_def s4_def)
        from append_entry_result [of s4 "Suc (Suc (Suc n))" tools_row, OF s4(1,2)]
        show ?thesis
        proof (elim disjE conjE)
          assume "Suc (Suc (Suc n)) = length (entries s4)" "append_entry tools_row s4 = Inl OutOfBounds"
          then show ?thesis using fail s4(3) by (simp add: run4)
        next
          assume a5: "Suc (Suc (Suc n)) < length (entries s4)"
            "append_entry tools_row s4 = Inr (s4\<lparr>entries := (entries s4)[Suc (Suc (Suc n)) := tools_row],
                 entry_count := int (Suc (Suc (Suc n))) + 1\<rparr>)"
            "take (Suc (Suc (Suc (Suc n)))) ((entries s4)[Suc (Suc (Suc n)) := tools_row]) = listing s4 @ [tools_row]"
          define xs where "xs = (entries s4)[Suc (Suc (Suc n)) := tools_row]"
          have "add_root_rows e s = Inr (s\<lparr>entries := xs, entry_count := int n + 4\<rparr>)"
            unfolding run4 a5(2) by (simp add: xs_def s4_def s3_def s2_def s1_def)
          moreover have "n + 4 \<le> length xs" using a5(1) by (simp add: xs_def)
          moreover have "length (entries s) \<le> length xs" using s4(3) by (simp add: xs_def m_def)
          moreover have "(\<forall>c. \<not> realloc_ok e c) \<longrightarrow> length xs = length (entries s)"
            using s4(3) pad(3) by (simp add: xs_def m_def)
          moreover have "n + 4 = Suc (Suc (Suc (Suc n)))" by simp
          then have "take (n + 4) xs = recent_row # favorites_row # random_row # listing s @ [tools_row]"
            using a5(3) s4(4) by (simp only: xs_def) simp
          ultimately show ?thesis by blast
        qed
      qed
    qed
  qed
qed

lemma scan_start_fields:
  "entries (scan_start s) = entries s" "entry_count (scan_start s) = 0"
  "hide_empty_folders (scan_start s) = hide_empty_folders s"
  "selected_index (scan_start s) = 0" "scroll_offset (scan_start s) = 0"
  "current_path (scan_start s) = current_path s"
  "listing (scan_start s) = []" "entries_capacity (scan_start s) = entries_capacity s"
  by (simp_all add: scan_start_def reset_navigation_state_def listing_def entries_capacity_def)

lemma load_scan_start:
  "load_empty_dirs_cache e (scan_start s) = scan_start (load_empty_dirs_cache e s)"
  by (simp add: load_empty_dirs_cache_def rebuild_empty_dirs_cache_def Let_def scan_start_def
      reset_navigation_state_def split: option.splits)

lemma cache_view_scan_start: "cache_view e (scan_start s) = cache_view e s"
  unfolding cache_view_def load_scan_start
  by (simp add: scan_start_def reset_navigation_state_def)

lemma scan_directory_root:
  "scan_directory e ROMS_PATH s =
     (case opendir e ROMS_PATH of
        None \<Rightarrow> Inr (scan_start s)
      | Some ents \<Rightarrow>
          (case scan_loop e ROMS_PATH True ents (scan_start s) of
             Inl x \<Rightarrow> Inl x
           | Inr s2 \<Rightarrow> add_root_rows e (qsort_entries s2)))"
  unfolding scan_directory_def scan_start_def Let_def
  by (simp split: option.splits sum.splits)

lemma scan_directory_sub:
  assumes "p \<noteq> ROMS_PATH"
  shows "scan_directory e p s =
     (case (case ensure_entries_capacity e (entry_count (scan_start s) + 1) (scan_start s) of
              Inl x \<Rightarrow> Inl x
            | Inr s' \<Rightarrow> append_entry (parent_row p) s') of
        Inl x \<Rightarrow> Inl x
      | Inr s1 \<Rightarrow>
          (case opendir e p of
             None \<Rightarrow> Inr s1
           | Some ents \<Rightarrow>
               (case scan_loop e p False ents s1 of
                  Inl x \<Rightarrow> Inl x
                | Inr s2 \<Rightarrow> Inr (qsort_entries s2))))"
  unfolding scan_directory_def scan_start_def parent_row_def Let_def
  using assms by (simp split: option.splits sum.splits)

lemma scan_done_root_loop:
  assumes ok: "scan_ok e (scan_start s) rowsL res"
    and fin: "\<And>s2. res = Inr s2 \<Longrightarrow> out = add_root_rows e (qsort_entries s2)"
    and err: "\<And>x. res = Inl x \<Longrightarrow> out = Inl x"
  shows "scan_done e s (recent_row # favorites_row # random_row # sort_key name rowsL @ [tools_row]) out"
proof -
  define s0 where "s0 = scan_start s"
  define n where "n = length rowsL"
  have len: "length (recent_row # favorites_row # random_row # sort_key name rowsL @ [tools_row]) = n + 4"
    by (simp add: n_def)
  from ok show ?thesis
    unfolding scan_ok_def scan_start_fields
  proof (elim disjE conjE exE)
    assume "res = Inl OutOfBounds" "\<not> (\<forall>c. realloc_ok e c)" "entries_capacity s < 0 + int (length rowsL)"
    then show ?thesis
      using err [of OutOfBounds] unfolding scan_done_def len
      by (simp add: entries_capacity_def n_def)
  next
    fix b ys
    assume res: "res = Inr ((if b then load_empty_dirs_cache e (scan_start s) else scan_start s)
                   \<lparr>entries := ys, entry_count := 0 + int (length rowsL)\<rparr>)"
      and ys: "take (nat (0 + int (length rowsL))) ys = [] @ rowsL"
        "0 + int (length rowsL) \<le> int (length ys)" "length (entries s) \<le> length ys"
        "(\<forall>c. \<not> realloc_ok e c) \<longrightarrow> length ys = length (entries s)"
    define base where "base = (if b then load_empty_dirs_cache e (scan_start s) else scan_start s)"
    define s2 where "s2 = base\<lparr>entries := ys, entry_count := int n\<rparr>"
    have res2: "res = Inr s2" by (simp add: res s2_def base_def n_def)
    obtain zs where zs: "qsort_entries s2 = s2\<lparr>entries := zs\<rparr>" "length zs = length (entries s2)"
      using qsort_entries_shape by blast
    define s3 where "s3 = qsort_entries s2"
    have s3: "entry_count s3 = int n" "n \<le> length (entries s3)" "length (entries s3) = length ys"
      using ys(2) zs(2) unfolding s3_def zs(1) by (simp_all add: s2_def n_def)
    have l3: "listing s3 = sort_key name rowsL"
      unfolding s3_def listing_qsort using ys(1) by (simp add: listing_def s2_def n_def)
    have out: "out = add_root_rows e s3" using fin [OF res2] by (simp add: s3_def)
    from add_root_rows_result [OF s3(1,2), of e]
    show ?thesis
    proof (elim disjE conjE exE)
      assume "add_root_rows e s3 = Inl OutOfBounds" "\<not> (\<forall>c. realloc_ok e c)" "length (entries s3) < n + 4"
      then show ?thesis
        using ys(3) unfolding scan_done_def len out by (simp add: s3(3))
    next
      fix ws
      assume ws: "add_root_rows e s3 = Inr (s3\<lparr>entries := ws, entry_count := int n + 4\<rparr>)"
        "n + 4 \<le> length ws" "length (entries s3) \<le> length ws"
        "(\<forall>c. \<not> realloc_ok e c) \<longrightarrow> length ws = length (entries s3)"
        "take (n + 4) ws = recent_row # favorites_row # random_row # listing s3 @ [tools_row]"
      have "s3\<lparr>entries := ws, entry_count := int n + 4\<rparr> = base\<lparr>entries := ws, entry_count := int (n + 4)\<rparr>"
        unfolding s3_def zs(1) by (simp add: s2_def)
      then have "out = Inr (base\<lparr>entries := ws, entry_count := int (n + 4)\<rparr>)"
        using out ws(1) by simp
      moreover have "take (n + 4) ws = recent_row # favorites_row # random_row # sort_key name rowsL @ [tools_row]"
        using ws(5) l3 by simp
      moreover have "length (entries s) \<le> length ws" using ws(3) ys(3) s3(3) by simp
      moreover have "(\<forall>c. \<not> realloc_ok e c) \<longrightarrow> length ws = length (entries s)"
        using ws(4) ys(4) s3(3) by simp
      ultimately show ?thesis
        unfolding scan_done_def len base_def using ws(2) by blast
    qed
  qed
qed

lemma scan_done_sub_loop:
  assumes sA: "sA = (scan_start s)\<lparr>entries := xs, entry_count := 0 + 1\<rparr>"
    and xs: "take (nat (0 + 1)) xs = [] @ [parent_row p]" "0 + 1 \<le> int (length xs)"
      "length (entries s) \<le> length xs"
      "(\<forall>c. \<not> realloc_ok e c) \<longrightarrow> length xs = length (entries s)"
    and ok: "scan_ok e sA rowsL res"
    and fin: "\<And>s2. res = Inr s2 \<Longrightarrow> out = Inr (qsort_entries s2)"
    and err: "\<And>x. res = Inl x \<Longrightarrow> out = Inl x"
  shows "scan_done e s (sort_key name (parent_row p # rowsL)) out"
proof -
  define n where "n = length rowsL"
  have len: "length (sort_key name (parent_row p # rowsL)) = Suc n" by (simp add: n_def)
  have fA: "entry_count sA = 1" "entries sA = xs" "entries_capacity sA = int (length xs)"
    "listing sA = [parent_row p]"
    using xs(1) by (simp_all add: sA listing_def entries_capacity_def)
  have ldA: "load_empty_dirs_cache e sA
             = (load_empty_dirs_cache e (scan_start s))\<lparr>entries := xs, entry_count := 0 + 1\<rparr>"
    unfolding sA by (rule load_update)
  from ok show ?thesis
    unfolding scan_ok_def fA
  proof (elim disjE conjE exE)
    assume "res = Inl OutOfBounds" "\<not> (\<forall>c. realloc_ok e c)" "int (length xs) < 1 + int (length rowsL)"
    then show ?thesis
      using err [of OutOfBounds] xs(3) unfolding scan_done_def len by (simp add: n_def)
  next
    fix b ys
    assume res: "res = Inr ((if b then load_empty_dirs_cache e sA else sA)
                   \<lparr>entries := ys, entry_count := 1 + int (length rowsL)\<rparr>)"
      and ys: "take (nat (1 + int (length rowsL))) ys = [parent_row p] @ rowsL"
        "1 + int (length rowsL) \<le> int (length ys)" "length xs \<le> length ys"
        "(\<forall>c. \<not> realloc_ok e c) \<longrightarrow> length ys = length xs"
    define base where "base = (if b then load_empty_dirs_cache e (scan_start s) else scan_start s)"
    define s2 where "s2 = base\<lparr>entries := ys, entry_count := int (Suc n)\<rparr>"
    have res2: "res = Inr s2"
      unfolding res ldA by (cases b) (simp_all add: s2_def base_def n_def sA)
    obtain zs where zs: "qsort_entries s2 = s2\<lparr>entries := zs\<rparr>" "length zs = length (entries s2)"
      using qsort_entries_shape by blast
    have lz: "length zs = length ys" using zs(2) by (simp add: s2_def)
    have "listing (qsort_entries s2) = sort_key name (listing s2)" by (rule listing_qsort)
    moreover have "listing s2 = parent_row p # rowsL"
      using ys(1) by (simp add: listing_def s2_def n_def nat_add_distrib)
    moreover have "listing (qsort_entries s2) = take (Suc n) zs"
      unfolding zs(1) by (simp add: listing_def s2_def nat_add_distrib)
    ultimately have tz: "take (Suc n) zs = sort_key name (parent_row p # rowsL)" by simp
    have "out = Inr (s2\<lparr>entries := zs\<rparr>)" using fin [OF res2] zs(1) by simp
    then have "out = Inr (base\<lparr>entries := zs, entry_count := int (Suc n)\<rparr>)"
      by (simp add: s2_def)
    moreover have "Suc n \<le> length zs" using ys(2) lz by (simp add: n_def)
    moreover have "length (entries s) \<le> length zs" using xs(3) ys(3) lz by simp
    moreover have "(\<forall>c. \<not> realloc_ok e c) \<longrightarrow> length zs = length (entries s)"
      using xs(4) ys(4) lz by simp
    ultimately show ?thesis
      unfolding scan_done_def len base_def using tz by blast
  qed
qed

lemma scan_directory_result:
  "scan_done e s (scan_rows e p (hide_empty_folders s) (cache_view e s)) (scan_directory e p s)"
proof (cases "p = ROMS_PATH")
  case True
  show ?thesis
  proof (cases "opendir e p")
    case None
    have "scan_directory e p s = Inr (scan_start s)"
      using True None by (simp add: scan_directory_root)
    moreover have "scan_start s = (if False then load_empty_dirs_cache e (scan_start s) else scan_start s)
        \<lparr>entries := entries s, entry_count := int (length ([]::MenuEntry list))\<rparr>"
      by (simp add: scan_start_def reset_navigation_state_def)
    moreover have "scan_rows e p (hide_empty_folders s) (cache_view e s) = []"
      using True None by (simp add: scan_rows_def)
    ultimately show ?thesis
      unfolding scan_done_def
      by (intro disjI2 exI [of _ False] exI [of _ "entries s"]) simp
  next
    case (Some ents)
    define rowsL where "rowsL = scanned_rows e p True (hide_empty_folders s) (cache_view e s) ents"
    have pre: "0 \<le> entry_count (scan_start s)" "entry_count (scan_start s) \<le> entries_capacity (scan_start s)"
      by (simp_all add: scan_start_fields entries_capacity_def)
    from scan_loop_rows [OF pre, of e p True ents]
    have ok: "scan_ok e (scan_start s) rowsL (scan_loop e p True ents (scan_start s))"
      by (simp add: rowsL_def scan_start_fields cache_view_scan_start)
    have rows: "scan_rows e p (hide_empty_folders s) (cache_view e s)
                = recent_row # favorites_row # random_row # sort_key name rowsL @ [tools_row]"
      using True Some by (simp add: scan_rows_def rowsL_def)
    show ?thesis
      unfolding rows
    proof (rule scan_done_root_loop [OF ok])
      fix s2 assume "scan_loop e p True ents (scan_start s) = Inr s2"
      then show "scan_directory e p s = add_root_rows e (qsort_entries s2)"
        using True Some by (simp add: scan_directory_root)
    next
      fix x assume "scan_loop e p True ents (scan_start s) = Inl x"
      then show "scan_directory e p s = Inl x"
        using True Some by (simp add: scan_directory_root)
    qed
  qed
next
  case False
  define push where "push = (case ensure_entries_capacity e (entry_count (scan_start s) + 1) (scan_start s) of
                    Inl x \<Rightarrow> Inl x | Inr s2 \<Rightarrow> append_entry (parent_row p) s2)"
  have run: "scan_directory e p s =
      (case push of
        Inl x \<Rightarrow> Inl x
      | Inr s1 \<Rightarrow>
          (case opendir e p of
             None \<Rightarrow> Inr s1
           | Some ents \<Rightarrow>
               (case scan_loop e p False ents s1 of
                  Inl x \<Rightarrow> Inl x
                | Inr s2 \<Rightarrow> Inr (qsort_entries s2))))"
    unfolding push_def by (rule scan_directory_sub [OF False])
  have pre: "0 \<le> entry_count (scan_start s)" "entry_count (scan_start s) \<le> entries_capacity (scan_start s)"
    by (simp_all add: scan_start_fields entries_capacity_def)
  have rl: "1 \<le> length (scan_rows e p (hide_empty_folders s) (cache_view e s))"
    using False by (simp add: scan_rows_def split: option.splits)
  from push_row [OF pre, where e = e and v = "parent_row p", folded push_def]
  show ?thesis
    unfolding scan_start_fields
  proof (elim disjE conjE exE)
    assume "push = Inl OutOfBounds" "0 = entries_capacity s" "\<not> (\<forall>c. realloc_ok e c)"
    then show ?thesis
      using rl unfolding scan_done_def run by (auto simp: entries_capacity_def)
  next
    fix xs
    assume p: "push = Inr ((scan_start s)\<lparr>entries := xs, entry_count := 0 + 1\<rparr>)"
      and xs: "take (nat (0 + 1)) xs = [] @ [parent_row p]" "0 + 1 \<le> int (length xs)"
        "length (entries s) \<le> length xs"
        "(\<forall>c. \<not> realloc_ok e c) \<longrightarrow> length xs = length (entries s)"
    define sA where "sA = (scan_start s)\<lparr>entries := xs, entry_count := 0 + 1\<rparr>"
    show ?thesis
    proof (cases "opendir e p")
      case None
      have "scan_directory e p s = Inr sA" unfolding run p sA_def using None by simp
      moreover have "sA = (if False then load_empty_dirs_cache e (scan_start s) else scan_start s)
          \<lparr>entries := xs, entry_count := int (length [parent_row p])\<rparr>"
        by (simp add: sA_def)
      moreover have "scan_rows e p (hide_empty_folders s) (cache_view e s) = [parent_row p]"
        using False None by (simp add: scan_rows_def)
      moreover have "take (length [parent_row p]) xs = [parent_row p]" using xs(1) by simp
      moreover have "length [parent_row p] \<le> length xs" using xs(2) by simp
      ultimately show ?thesis
        unfolding scan_done_def using xs(3,4)
        by (intro disjI2 exI [of _ False] exI [of _ xs]) simp
    next
      case (Some ents)
      define rowsL where "rowsL = scanned_rows e p False (hide_empty_folders s) (cache_view e s) ents"
      have preA: "0 \<le> entry_count sA" "entry_count sA \<le> entries_capacity sA"
        using xs(2) by (simp_all add: sA_def entries_capacity_def)
      have fA: "hide_empty_folders sA = hide_empty_folders s" "cache_view e sA = cache_view e s"
        unfolding sA_def cache_view_update by (simp_all add: scan_start_fields cache_view_scan_start)
      from scan_loop_rows [OF preA, of e p False ents]
      have ok: "scan_ok e sA rowsL (scan_loop e p False ents sA)"
        by (simp add: rowsL_def fA)
      have rows: "scan_rows e p (hide_empty_folders s) (cache_view e s)
                  = sort_key name (parent_row p # rowsL)"
        using False Some by (simp add: scan_rows_def rowsL_def)
      show ?thesis
        unfolding rows
      proof (rule scan_done_sub_loop [OF sA_def xs ok])
        fix s2 assume "scan_loop e p False ents sA = Inr s2"
        then show "scan_directory e p s = Inr (qsort_entries s2)"
          unfolding run p sA_def [symmetric] using Some by simp
      next
        fix x assume "scan_loop e p False ents sA = Inl x"
        then show "scan_directory e p s = Inl x"
          unfolding run p sA_def [symmetric] using Some by simp
      qed
    qed
  qed
qed



section \<open>The scanner: results\<close>




text \<open>
  C10. If the root directory itself cannot be opened, the scan returns before the
  synthetic rows are inserted: the Entry Store is completely empty (\<open>entry_count = 0\<close>),
  without Recent games, Favorites, Random game or Tools.
\<close>

theorem unopenable_root_is_empty:
  assumes "opendir e ROMS_PATH = None"
  shows "scan_directory e ROMS_PATH s = Inr (reset_navigation_state (s\<lparr>entry_count := 0\<rparr>))
         \<and> entry_count (reset_navigation_state (s\<lparr>entry_count := 0\<rparr>)) = 0
         \<and> listing (reset_navigation_state (s\<lparr>entry_count := 0\<rparr>)) = []"
  using assms
  by (simp add: scan_directory_root scan_start_def reset_navigation_state_def listing_def)

text \<open>
  C10 on the card that cannot be read, coming from the Tools menu.
\<close>

theorem unopenable_root_is_empty_witness:
  "opendir unavailable_env ROMS_PATH = None
   \<and> scan_directory unavailable_env ROMS_PATH tools_listing_state
       = Inr (reset_navigation_state (tools_listing_state\<lparr>entry_count := 0\<rparr>))
   \<and> listing (reset_navigation_state (tools_listing_state\<lparr>entry_count := 0\<rparr>)) = []"
proof -
  have a: "opendir unavailable_env ROMS_PATH = None"
    by (simp add: unavailable_env_def)
  from unopenable_root_is_empty [OF a, of tools_listing_state] a show ?thesis by simp
qed



text \<open>
  C9. When the entry array cannot be grown, \<open>ensure_entries_capacity\<close> keeps the old
  array, as its comment says, but \<open>scan_directory\<close> does not look at the outcome: it has
  reset \<open>entry_count\<close> already and goes on writing rows, so a listing with more rows than
  the array has cells ends in a write outside the array (through \<open>NULL\<close> when nothing
  was allocated yet). The previous Entry Store and count are not left untouched.
\<close>

theorem growth_failure_writes_out_of_bounds:
  assumes "\<forall>c. \<not> realloc_ok e c"
    and "length (entries s) < length (scan_rows e p (hide_empty_folders s) (cache_view e s))"
  shows "ensure_entries_capacity e (entries_capacity s + 1) s = Inr s
         \<and> scan_directory e p s = Inl OutOfBounds"
proof -
  from ensure_entries_capacity_result [of e "entries_capacity s + 1" s] assms(1)
  have "ensure_entries_capacity e (entries_capacity s + 1) s = Inr (s\<lparr>entries := entries s @ []\<rparr>)"
    by auto
  then have one: "ensure_entries_capacity e (entries_capacity s + 1) s = Inr s" by simp
  from scan_directory_result [of e s p] assms
  have "scan_directory e p s = Inl OutOfBounds"
    unfolding scan_done_def by auto
  with one show ?thesis by simp
qed

text \<open>
  C9 at start-up, when the first allocation fails.
\<close>

theorem growth_failure_writes_out_of_bounds_witness:
  "(\<forall>c. \<not> realloc_ok no_memory_env c)
   \<and> ensure_entries_capacity no_memory_env 1 initial_state = Inr initial_state
   \<and> scan_directory no_memory_env ''/mnt/sda1/ROMS/gb'' initial_state = Inl OutOfBounds"
proof -
  have a: "\<forall>c. \<not> realloc_ok no_memory_env c"
    by (simp add: no_memory_env_def)
  have ne: "''/mnt/sda1/ROMS/gb'' \<noteq> ROMS_PATH" by (simp add: ROMS_PATH_def)
  have b: "length (entries initial_state)
           < length (scan_rows no_memory_env ''/mnt/sda1/ROMS/gb''
                      (hide_empty_folders initial_state) (cache_view no_memory_env initial_state))"
    using ne by (simp add: scan_rows_def initial_state_def split: option.splits)
  from growth_failure_writes_out_of_bounds [OF a b] a show ?thesis
    by (simp add: entries_capacity_def initial_state_def)
qed





section \<open>The A-Z picker: results\<close>

lemma first_index_from_cases:
  "(first_index_from P xs k = None \<and> (\<forall>i<length xs. \<not> P (xs ! i)))
   \<or> (\<exists>i<length xs. first_index_from P xs k = Some (k + int i) \<and> P (xs ! i)
          \<and> (\<forall>j<i. \<not> P (xs ! j)))"
proof (induction xs arbitrary: k)
  case Nil
  then show ?case by simp
next
  case (Cons x xs)
  show ?case
  proof (cases "P x")
    case True
    then have "first_index_from P (x # xs) k = Some (k + int 0) \<and> P ((x # xs) ! 0)
               \<and> (\<forall>j<0. \<not> P ((x # xs) ! j))"
      by simp
    then show ?thesis by blast
  next
    case False
    from Cons.IH [of "k + 1"] show ?thesis
    proof (elim disjE conjE exE)
      assume "first_index_from P xs (k + 1) = None" "\<forall>i<length xs. \<not> P (xs ! i)"
      then have "first_index_from P (x # xs) k = None \<and> (\<forall>i<length (x # xs). \<not> P ((x # xs) ! i))"
        using False by (auto simp: nth_Cons')
      then show ?thesis by blast
    next
      fix i
      assume i: "i < length xs" "first_index_from P xs (k + 1) = Some (k + 1 + int i)"
        "P (xs ! i)" "\<forall>j<i. \<not> P (xs ! j)"
      have "Suc i < length (x # xs)" using i(1) by simp
      moreover have "first_index_from P (x # xs) k = Some (k + int (Suc i))"
        using False i(2) by simp
      moreover have "P ((x # xs) ! Suc i)" using i(3) by simp
      moreover have "\<forall>j<Suc i. \<not> P ((x # xs) ! j)"
        using False i(4) by (auto simp: nth_Cons')
      ultimately show ?thesis by blast
    qed
  qed
qed

lemma first_index_cases:
  "(first_index P s = None \<and> (\<forall>i<length (listing s). \<not> P (listing s ! i)))
   \<or> (\<exists>i<length (listing s). first_index P s = Some (int i) \<and> P (listing s ! i)
          \<and> (\<forall>j<i. \<not> P (listing s ! j)))"
  using first_index_from_cases [of P "listing s" 0] by (simp add: first_index_def)

lemma search_chars_letter:
  assumes "n < 26"
  shows "c_first (search_chars ! n) = char_of (65 + n)"
proof -
  have "list_all (\<lambda>n. c_first (search_chars ! n) = char_of (65 + n)) [0..<26]"
    by code_simp
  then show ?thesis using assms by (simp add: list_all_iff)
qed

lemma az_row_matches_bucket:
  assumes "0 \<le> b" "b \<le> 27"
  shows "az_row_matches b (c_first (search_chars ! nat b)) en = in_bucket b (entry_first_upper en)"
proof (cases "b < 26")
  case True
  then have "c_first (search_chars ! nat b) = char_of (65 + nat b)"
    using assms(1) by (intro search_chars_letter) simp
  then show ?thesis using True by (simp add: az_row_matches_def in_bucket_def Let_def)
next
  case False
  with assms(2) have "b = 26 \<or> b = 27" by arith
  then show ?thesis by (auto simp: az_row_matches_def in_bucket_def Let_def)
qed

lemma az_move_fields:
  "listing (az_move u d l r s) = listing s"
  "selected_index (az_move u d l r s) = selected_index s"
  "az_picker_active (az_move u d l r s) = az_picker_active s"
  by (simp_all add: az_move_def Let_def listing_def)

lemma az_move_range:
  assumes "0 \<le> az_selected_index s" "az_selected_index s \<le> 27"
  shows "0 \<le> az_selected_index (az_move u d l r s) \<and> az_selected_index (az_move u d l r s) \<le> 27"
proof -
  define s1 where "s1 = (if u \<and> az_selected_index s \<ge> 7
                then s\<lparr>az_selected_index := az_selected_index s - 7\<rparr> else s)"
  define s2 where "s2 = (if d \<and> az_selected_index s1 < 21
                then s1\<lparr>az_selected_index := az_selected_index s1 + 7\<rparr> else s1)"
  define s3 where "s3 = (if l \<and> az_selected_index s2 > 0
                then s2\<lparr>az_selected_index := az_selected_index s2 - 1\<rparr> else s2)"
  have r1: "0 \<le> az_selected_index s1 \<and> az_selected_index s1 \<le> 27"
    using assms by (simp add: s1_def)
  then have r2: "0 \<le> az_selected_index s2 \<and> az_selected_index s2 \<le> 27"
    by (simp add: s2_def)
  then have r3: "0 \<le> az_selected_index s3 \<and> az_selected_index s3 \<le> 27"
    by (simp add: s3_def)
  have "az_move u d l r s = (if r \<and> az_selected_index s3 < 27
         then s3\<lparr>az_selected_index := az_selected_index s3 + 1\<rparr> else s3)"
    unfolding az_move_def Let_def s1_def s2_def s3_def ..
  then show ?thesis using r3 by simp
qed

lemma az_confirm_result:
  assumes "0 \<le> az_selected_index s" "az_selected_index s \<le> 27"
  shows "\<exists>s'. az_confirm s = Inr s' \<and> \<not> az_picker_active s' \<and> listing s' = listing s
           \<and> az_selected_index s' = az_selected_index s
           \<and> ((\<exists>i<length (listing s). selected_index s' = int i
                   \<and> in_bucket (az_selected_index s) (entry_first_upper (listing s ! i))
                   \<and> (\<forall>j<i. \<not> in_bucket (az_selected_index s) (entry_first_upper (listing s ! j))))
               \<or> ((\<forall>i<length (listing s). \<not> in_bucket (az_selected_index s) (entry_first_upper (listing s ! i)))
                   \<and> selected_index s' = selected_index s))"
proof -
  define b where "b = az_selected_index s"
  define P where "P = az_row_matches b (c_first (search_chars ! nat b))"
  have P: "P en = in_bucket b (entry_first_upper en)" for en
    unfolding P_def using assms by (intro az_row_matches_bucket) (simp_all add: b_def)
  have run: "az_confirm s = Inr ((case first_index P s of None \<Rightarrow> s | Some i \<Rightarrow> s\<lparr>selected_index := i\<rparr>)
                                   \<lparr>az_picker_active := False\<rparr>)"
    using assms by (simp add: az_confirm_def Let_def P_def b_def)
  from first_index_cases [of P s] show ?thesis
  proof (elim disjE conjE exE)
    assume "first_index P s = None" "\<forall>i<length (listing s). \<not> P (listing s ! i)"
    then show ?thesis
      unfolding run by (simp add: P listing_def b_def [symmetric])
  next
    fix i
    assume i: "i < length (listing s)" "first_index P s = Some (int i)" "P (listing s ! i)"
      "\<forall>j<i. \<not> P (listing s ! j)"
    have "az_confirm s = Inr (s\<lparr>selected_index := int i, az_picker_active := False\<rparr>)"
      unfolding run i(2) by simp
    moreover have "in_bucket b (entry_first_upper (listing s ! i))
                   \<and> (\<forall>j<i. \<not> in_bucket b (entry_first_upper (listing s ! j)))"
      using i(3,4) by (simp add: P)
    ultimately show ?thesis
      using i(1)
      by (intro exI [of _ "s\<lparr>selected_index := int i, az_picker_active := False\<rparr>"])
         (auto simp: listing_def b_def [symmetric])
  qed
qed

text \<open>
  C6. With the picker open and its cursor on one of the 28 cells, a frame that releases A
  moves the cursor as the direction buttons say and then selects the first row whose
  name's first character, made upper-case, lies in the bucket under the cursor; when no row
  does, the selection stays. A frame that releases B without A changes no selection. Both
  close the picker. For the rows Banana, apple, Cherry, confirming bucket A selects row 1.
\<close>

theorem az_confirm_selects_first_match:
  assumes "0 \<le> az_selected_index s" "az_selected_index s \<le> 27"
  shows "(\<exists>s'. az_picker_input up_rel down_rel left_rel right_rel True b_rel s = Inr s'
            \<and> \<not> az_picker_active s' \<and> listing s' = listing s
            \<and> ((\<exists>i<length (listing s). selected_index s' = int i
                    \<and> in_bucket (az_selected_index s') (entry_first_upper (listing s ! i))
                    \<and> (\<forall>j<i. \<not> in_bucket (az_selected_index s') (entry_first_upper (listing s ! j))))
                \<or> ((\<forall>i<length (listing s).
                        \<not> in_bucket (az_selected_index s') (entry_first_upper (listing s ! i)))
                    \<and> selected_index s' = selected_index s)))
         \<and> (\<exists>s'. az_picker_input up_rel down_rel left_rel right_rel False True s = Inr s'
                \<and> \<not> az_picker_active s' \<and> listing s' = listing s
                \<and> selected_index s' = selected_index s)
         \<and> az_picker_input False False False False True False fruit_state
             = Inr (fruit_state\<lparr>selected_index := 1, az_picker_active := False\<rparr>)"
proof -
  define m where "m = az_move up_rel down_rel left_rel right_rel s"
  have range: "0 \<le> az_selected_index m" "az_selected_index m \<le> 27"
    using az_move_range [OF assms] by (simp_all add: m_def)
  from az_confirm_result [OF range]
  obtain s1 where s1: "az_confirm m = Inr s1" "\<not> az_picker_active s1" "listing s1 = listing m"
    "az_selected_index s1 = az_selected_index m"
    "(\<exists>i<length (listing m). selected_index s1 = int i
         \<and> in_bucket (az_selected_index m) (entry_first_upper (listing m ! i))
         \<and> (\<forall>j<i. \<not> in_bucket (az_selected_index m) (entry_first_upper (listing m ! j))))
     \<or> ((\<forall>i<length (listing m). \<not> in_bucket (az_selected_index m) (entry_first_upper (listing m ! i)))
         \<and> selected_index s1 = selected_index m)"
    by blast
  define s' where "s' = (if b_rel then s1\<lparr>az_picker_active := False\<rparr> else s1)"
  have f: "az_picker_active s' = False" "listing s' = listing s1" "selected_index s' = selected_index s1"
    "az_selected_index s' = az_selected_index s1"
    using s1(2) by (simp_all add: s'_def listing_def)
  have "az_picker_input up_rel down_rel left_rel right_rel True b_rel s = Inr s'"
    by (simp add: az_picker_input_def m_def [symmetric] s1(1) s'_def)
  moreover have "(\<exists>i<length (listing s). selected_index s' = int i
                    \<and> in_bucket (az_selected_index s') (entry_first_upper (listing s ! i))
                    \<and> (\<forall>j<i. \<not> in_bucket (az_selected_index s') (entry_first_upper (listing s ! j))))
                \<or> ((\<forall>i<length (listing s).
                        \<not> in_bucket (az_selected_index s') (entry_first_upper (listing s ! i)))
                    \<and> selected_index s' = selected_index s)"
    using s1(5) unfolding f s1(4) by (simp add: m_def az_move_fields)
  moreover have "listing s' = listing s" by (simp add: f s1(3) m_def az_move_fields)
  ultimately have confirm: "\<exists>s'. az_picker_input up_rel down_rel left_rel right_rel True b_rel s = Inr s'
            \<and> \<not> az_picker_active s' \<and> listing s' = listing s
            \<and> ((\<exists>i<length (listing s). selected_index s' = int i
                    \<and> in_bucket (az_selected_index s') (entry_first_upper (listing s ! i))
                    \<and> (\<forall>j<i. \<not> in_bucket (az_selected_index s') (entry_first_upper (listing s ! j))))
                \<or> ((\<forall>i<length (listing s).
                        \<not> in_bucket (az_selected_index s') (entry_first_upper (listing s ! i)))
                    \<and> selected_index s' = selected_index s))"
    using f(1) by blast
  have "az_picker_input up_rel down_rel left_rel right_rel False True s = Inr (m\<lparr>az_picker_active := False\<rparr>)"
    by (simp add: az_picker_input_def m_def)
  moreover have "listing (m\<lparr>az_picker_active := False\<rparr>) = listing s"
    "selected_index (m\<lparr>az_picker_active := False\<rparr>) = selected_index s"
    using az_move_fields [of up_rel down_rel left_rel right_rel s]
    by (simp_all add: m_def listing_def)
  ultimately have cancel: "\<exists>s'. az_picker_input up_rel down_rel left_rel right_rel False True s = Inr s'
                \<and> \<not> az_picker_active s' \<and> listing s' = listing s
                \<and> selected_index s' = selected_index s"
    by simp
  have example: "az_picker_input False False False False True False fruit_state
             = Inr (fruit_state\<lparr>selected_index := 1, az_picker_active := False\<rparr>)"
    by code_simp
  from confirm cancel example show ?thesis by blast
qed

text \<open>
  C6 on the same three rows: RIGHT and A released together confirm bucket B, and Banana
  at row 0 is selected.
\<close>

theorem az_confirm_selects_first_match_witness:
  "0 \<le> az_selected_index fruit_state \<and> az_selected_index fruit_state \<le> 27
   \<and> (\<exists>s'. az_picker_input False False False True True False fruit_state = Inr s'
          \<and> \<not> az_picker_active s' \<and> selected_index s' = 0 \<and> az_selected_index s' = 1)"
proof -
  have a: "0 \<le> az_selected_index fruit_state" "az_selected_index fruit_state \<le> 27"
    by (simp_all add: fruit_state_def)
  have run: "az_picker_input False False False True True False fruit_state
             = Inr (fruit_state\<lparr>az_selected_index := 1, selected_index := 0, az_picker_active := False\<rparr>)"
    by code_simp
  from az_confirm_selects_first_match [OF a, of False False False True False] run a
  show ?thesis by simp
qed

section \<open>Launch keys: results\<close>

lemma strchr_append:
  assumes "c \<notin> set a"
  shows "strchr (a @ c # b) c = Some (length a)"
  using assms by (induction a) auto

lemma strchr_None:
  assumes "c \<notin> set s"
  shows "strchr s c = None"
  using assms by (induction s) auto

text \<open>
  C7. A released on a row of the recent games or the favorites: the key
  \<open>Gambatte;SuperMario\<close> is split into the core \<open>Gambatte\<close> and the file name
  \<open>SuperMario\<close>; a key without a semicolon makes the handler return without a launch;
  and in general a key \<open>core;file\<close>, with no semicolon in the core and both parts
  within their buffers of 255 characters, launches that core with that file name.
\<close>

theorem composite_key_split:
  "confirm_game_row games \<lparr>path = ''Gambatte;SuperMario'', name = label, is_dir = False\<rparr>
     = Some (Launch ''Gambatte'' (lookup_full_path games ''Gambatte'' ''SuperMario'') ''SuperMario'')
   \<and> (CHR '';'' \<notin> set (path entry) \<longrightarrow> confirm_game_row games entry = None)
   \<and> (path entry = core @ '';'' @ fname \<and> CHR '';'' \<notin> set core
        \<and> length core \<le> 255 \<and> length fname \<le> 255
       \<longrightarrow> confirm_game_row games entry = Some (Launch core (lookup_full_path games core fname) fname))"
proof -
  have split: "confirm_game_row games en = Some (Launch c (lookup_full_path games c f) f)"
    if "path en = c @ '';'' @ f" "CHR '';'' \<notin> set c" "length c \<le> 255" "length f \<le> 255"
    for en c f
  proof -
    have "strchr (path en) CHR '';'' = Some (length c)"
      using that(1,2) strchr_append [of "CHR '';''" c f] by simp
    then show ?thesis
      using that by (simp add: confirm_game_row_def Let_def)
  qed
  have "confirm_game_row games \<lparr>path = ''Gambatte;SuperMario'', name = label, is_dir = False\<rparr>
     = Some (Launch ''Gambatte'' (lookup_full_path games ''Gambatte'' ''SuperMario'') ''SuperMario'')"
    by (rule split) simp_all
  moreover have "CHR '';'' \<notin> set (path entry) \<longrightarrow> confirm_game_row games entry = None"
    by (simp add: confirm_game_row_def strchr_None)
  ultimately show ?thesis using split [of entry core fname] by blast
qed

text \<open>
  C7 on a key without a separator and on a stored game.
\<close>

theorem composite_key_split_witness:
  "CHR '';'' \<notin> set (path \<lparr>path = ''GambatteSuperMario'', name = ''Super Mario'', is_dir = False\<rparr>)
   \<and> confirm_game_row [] \<lparr>path = ''GambatteSuperMario'', name = ''Super Mario'', is_dir = False\<rparr> = None
   \<and> path \<lparr>path = ''gpSP;Advance Wars.gba'', name = ''Advance Wars'', is_dir = False\<rparr>
       = ''gpSP'' @ '';'' @ ''Advance Wars.gba''
   \<and> confirm_game_row
        [\<lparr>core_name = ''gpSP'', game_name = ''Advance Wars.gba'', full_path = ''gba'',
          display_name = ''Advance Wars''\<rparr>]
        \<lparr>path = ''gpSP;Advance Wars.gba'', name = ''Advance Wars'', is_dir = False\<rparr>
       = Some (Launch ''gpSP'' (Some ''gba'') ''Advance Wars.gba'')"
proof -
  have a: "CHR '';'' \<notin> set (path \<lparr>path = ''GambatteSuperMario'', name = ''Super Mario'', is_dir = False\<rparr>)"
    by simp
  have b: "path \<lparr>path = ''gpSP;Advance Wars.gba'', name = ''Advance Wars'', is_dir = False\<rparr>
             = ''gpSP'' @ '';'' @ ''Advance Wars.gba''
           \<and> CHR '';'' \<notin> set ''gpSP'' \<and> length ''gpSP'' \<le> 255 \<and> length ''Advance Wars.gba'' \<le> 255"
    by simp
  from composite_key_split
         [of "[]" "''x''" "\<lparr>path = ''GambatteSuperMario'', name = ''Super Mario'', is_dir = False\<rparr>"
             "[]" "[]"] a
  have one: "confirm_game_row [] \<lparr>path = ''GambatteSuperMario'', name = ''Super Mario'', is_dir = False\<rparr> = None"
    by blast
  from composite_key_split
         [of "[\<lparr>core_name = ''gpSP'', game_name = ''Advance Wars.gba'', full_path = ''gba'',
                 display_name = ''Advance Wars''\<rparr>]" "''x''"
             "\<lparr>path = ''gpSP;Advance Wars.gba'', name = ''Advance Wars'', is_dir = False\<rparr>"
             "''gpSP''" "''Advance Wars.gba''"] b
  have two: "confirm_game_row
        [\<lparr>core_name = ''gpSP'', game_name = ''Advance Wars.gba'', full_path = ''gba'',
          display_name = ''Advance Wars''\<rparr>]
        \<lparr>path = ''gpSP;Advance Wars.gba'', name = ''Advance Wars'', is_dir = False\<rparr>
       = Some (Launch ''gpSP'' (lookup_full_path [\<lparr>core_name = ''gpSP'', game_name = ''Advance Wars.gba'', full_path = ''gba'',
          display_name = ''Advance Wars''\<rparr>] ''gpSP'' ''Advance Wars.gba'') ''Advance Wars.gba'')"
    by blast
  from a b one two show ?thesis by simp
qed

section \<open>Going back: results\<close>









end
